theory Spec2Isabelle
  imports Complex_Main "HOL-Library.AList"
begin

section \<open>Data model\<close>

text \<open>
  A tensor of per-edge scores is kept flat: one real per edge ending at a module. Finite,
  non-NaN values are exact reals (rounding is not modelled). \<open>PruneScores\<close> is a Python
  dict from module name to tensor; it is an association list in insertion order, read with
  \<open>map_of\<close> and written with \<open>AList.update\<close>. An edge is named by its module and its
  position in that module's tensor.
\<close>

type_synonym tensor = "real list"

type_synonym mod_name = string

type_synonym PruneScores = "(mod_name \<times> tensor) list"

type_synonym edge = "mod_name \<times> nat"

datatype error = AssertionError | KeyError | IndexError | ShapeError

text \<open>
  The scalar returned by \<open>prune_scores_threshold\<close>: a finite score, or \<open>+inf\<close>, which no
  finite score reaches.
\<close>

datatype thresh = Thresh real | PosInf

fun at_least :: "real \<Rightarrow> thresh \<Rightarrow> bool" where
  "at_least x (Thresh v) = (v \<le> x)"
| "at_least x PosInf = False"

text \<open>
  The fields of \<open>Task\<close> that the two procedures read. \<open>model_edges\<close> is the shape of the
  model's patch masks: the modules in order, each with its number of edges.
\<close>

record 'b task =
  model_edges :: "(mod_name \<times> nat) list"
  true_edges :: "edge list option"
  true_edge_count :: "int option"
  test_loader :: "'b list"

text \<open>
  An element of \<open>circuit_sizes\<close>: the literal \<open>"true_size"\<close>, an \<open>int\<close> (Python's \<open>bool\<close>
  is a subclass of \<open>int\<close>, so \<open>True\<close> is \<open>IntSize 1\<close>), or any other runtime value, for
  which \<open>isinstance(size, int)\<close> is false.
\<close>

datatype size_arg = TrueSize | IntSize int | NotInt

definition score_at :: "PruneScores \<Rightarrow> edge \<Rightarrow> real option" where
  "score_at ps e =
     (case map_of ps (fst e) of
        None \<Rightarrow> None
      | Some t \<Rightarrow> if snd e < length t then Some (t ! snd e) else None)"

section \<open>Circuit probing (prune\_algos/circuit\_probing.py)\<close>

text \<open>
  Lines 32-37, one iteration: resolve \<open>"true_size"\<close>, then the assertion of line 36.
\<close>

definition resolve_size :: "'b task \<Rightarrow> size_arg \<Rightarrow> error + int" where
  "resolve_size task sz =
     (case sz of
        TrueSize \<Rightarrow>
          (if true_edges task = None then Inl AssertionError
           else (case true_edge_count task of
                   None \<Rightarrow> Inl AssertionError
                 | Some n \<Rightarrow> if n > 0 then Inr n else Inl AssertionError))
      | IntSize n \<Rightarrow> if n > 0 then Inr n else Inl AssertionError
      | NotInt \<Rightarrow> Inl AssertionError)"

fun resolve_sizes :: "'b task \<Rightarrow> size_arg list \<Rightarrow> error + int list" where
  "resolve_sizes task [] = Inr []"
| "resolve_sizes task (sz # circuit_sizes) =
     (case resolve_size task sz of
        Inl e \<Rightarrow> Inl e
      | Inr n \<Rightarrow>
          (case resolve_sizes task circuit_sizes of
             Inl e \<Rightarrow> Inl e
           | Inr sizes \<Rightarrow> Inr (n # sizes)))"

text \<open>
  Lines 31-40: the resolved sizes, checked for duplicates, sorted ascending.
\<close>

definition sorted_circuit_sizes :: "'b task \<Rightarrow> size_arg list \<Rightarrow> error + int list" where
  "sorted_circuit_sizes task circuit_sizes =
     (case resolve_sizes task circuit_sizes of
        Inl e \<Rightarrow> Inl e
      | Inr sizes \<Rightarrow>
          if card (set sizes) \<noteq> length sizes then Inl AssertionError
          else if length sizes \<noteq> length circuit_sizes then Inl AssertionError
          else Inr (sort sizes))"

text \<open>
  Modelled from the spec: \<open>Model.new_prune_scores\<close> is not among the sources; the spec has
  PruneScores "zero-initialized at the start of an algorithm", one scalar per edge, grouped
  by destination module.
\<close>

definition new_prune_scores :: "(mod_name \<times> nat) list \<Rightarrow> PruneScores" where
  "new_prune_scores shape = map (\<lambda>(m, n). (m, replicate n 0)) shape"

text \<open>
  Lines 69-70: \<open>t.where((new_ps >= threshold) & (curr_ps == 0), score, curr_ps)\<close>.
\<close>

definition where_new_circuit :: "thresh \<Rightarrow> real \<Rightarrow> tensor \<Rightarrow> tensor \<Rightarrow> tensor" where
  "where_new_circuit threshold score new_ps curr_ps =
     map2 (\<lambda>new cur. if at_least new threshold \<and> cur = 0 then score else cur) new_ps curr_ps"

text \<open>
  Lines 66-70, the loop over \<open>new_prune_scores.items()\<close>. A module missing from
  \<open>prune_scores\<close> raises KeyError at line 67; tensors of different shapes do not combine.
\<close>

fun merge_scores :: "thresh \<Rightarrow> real \<Rightarrow> PruneScores \<Rightarrow> PruneScores \<Rightarrow> error + PruneScores" where
  "merge_scores threshold score [] prune_scores = Inr prune_scores"
| "merge_scores threshold score ((m, new_ps) # rest) prune_scores =
     (case map_of prune_scores m of
        None \<Rightarrow> Inl KeyError
      | Some curr_ps \<Rightarrow>
          if length new_ps \<noteq> length curr_ps then Inl ShapeError
          else merge_scores threshold score rest
                 (AList.update m (where_new_circuit threshold score new_ps curr_ps) prune_scores))"

text \<open>
  Lines 46-70, the body of the loop over sizes. The training procedure
  \<open>subnetwork_probing_prune_scores\<close> and \<open>prune_scores_threshold\<close> are not among the sources
  and are parameters: \<open>probe\<close> trains for one size, reading and changing the outside state
  \<open>'s\<close> (model masks, optimiser, random source); \<open>thr\<close> is the threshold operation.
  \<open>n\<close> is \<open>len(sorted_circuit_sizes)\<close>. The assertion of line 47 cannot fail after
  line 36.
\<close>

definition probing_pass ::
  "(int \<Rightarrow> 's \<Rightarrow> (error + PruneScores) \<times> 's) \<Rightarrow> (PruneScores \<Rightarrow> int \<Rightarrow> error + thresh) \<Rightarrow>
   nat \<Rightarrow> nat \<Rightarrow> int \<Rightarrow> PruneScores \<Rightarrow> 's \<Rightarrow> (error + PruneScores) \<times> 's" where
  "probing_pass probe thr n size_idx sz prune_scores st =
     (case probe sz st of
        (Inl e, st') \<Rightarrow> (Inl e, st')
      | (Inr new_scores, st') \<Rightarrow>
          if \<not> list_all (\<lambda>(m, ps). list_all (\<lambda>x. x \<ge> 0) ps) new_scores
          then (Inl AssertionError, st')
          else (case thr new_scores sz of
                  Inl e \<Rightarrow> (Inl e, st')
                | Inr threshold \<Rightarrow>
                    (merge_scores threshold (real_of_int (int n - int size_idx))
                       new_scores prune_scores, st')))"

text \<open>
  Line 45: the passes in ascending order, \<open>size_idx\<close> counting from 0 as \<open>enumerate\<close> does.
\<close>

fun probing_loop ::
  "(int \<Rightarrow> 's \<Rightarrow> (error + PruneScores) \<times> 's) \<Rightarrow> (PruneScores \<Rightarrow> int \<Rightarrow> error + thresh) \<Rightarrow>
   nat \<Rightarrow> nat \<Rightarrow> int list \<Rightarrow> PruneScores \<Rightarrow> 's \<Rightarrow> (error + PruneScores) \<times> 's" where
  "probing_loop probe thr n size_idx [] prune_scores st = (Inr prune_scores, st)"
| "probing_loop probe thr n size_idx (sz # rest) prune_scores st =
     (case probing_pass probe thr n size_idx sz prune_scores st of
        (Inl e, st') \<Rightarrow> (Inl e, st')
      | (Inr prune_scores', st') \<Rightarrow> probing_loop probe thr n (Suc size_idx) rest prune_scores' st')"

definition circuit_probing_prune_scores ::
  "(int \<Rightarrow> 's \<Rightarrow> (error + PruneScores) \<times> 's) \<Rightarrow> (PruneScores \<Rightarrow> int \<Rightarrow> error + thresh) \<Rightarrow>
   'b task \<Rightarrow> size_arg list \<Rightarrow> 's \<Rightarrow> (error + PruneScores) \<times> 's" where
  "circuit_probing_prune_scores probe thr task circuit_sizes st =
     (case sorted_circuit_sizes task circuit_sizes of
        Inl e \<Rightarrow> (Inl e, st)
      | Inr sizes \<Rightarrow>
          probing_loop probe thr (length sizes) 0 sizes (new_prune_scores (model_edges task)) st)"

subsection \<open>Notions the claims about circuit probing use\<close>

text \<open>
  The precondition in the spec's words: every requested size resolves to an integer, is
  positive, and no two resolve to the same integer.
\<close>

definition resolved_value :: "'b task \<Rightarrow> size_arg \<Rightarrow> int option" where
  "resolved_value task sz =
     (case sz of
        TrueSize \<Rightarrow> (if true_edges task = None then None else true_edge_count task)
      | IntSize n \<Rightarrow> Some n
      | NotInt \<Rightarrow> None)"

definition distinct_positive_sizes :: "'b task \<Rightarrow> size_arg list \<Rightarrow> bool" where
  "distinct_positive_sizes task circuit_sizes =
     (list_all (\<lambda>sz. case resolved_value task sz of None \<Rightarrow> False | Some n \<Rightarrow> n > 0) circuit_sizes
      \<and> distinct (map (resolved_value task) circuit_sizes))"

text \<open>
  An edge is selected by a pass when its freshly trained score reaches that pass's
  threshold (the first operand of line 69).
\<close>

definition selected :: "PruneScores \<Rightarrow> thresh \<Rightarrow> edge \<Rightarrow> bool" where
  "selected new_scores threshold e =
     list_ex (\<lambda>(m, t). m = fst e \<and> snd e < length t \<and> at_least (t ! snd e) threshold) new_scores"

text \<open>
  What each pass of a run trained and thresholded, in order: the calls of lines 48 and 64
  replayed on the same outside state. \<open>first_pass\<close> is the index of the first pass that
  selects an edge.
\<close>

fun pass_results ::
  "(int \<Rightarrow> 's \<Rightarrow> (error + PruneScores) \<times> 's) \<Rightarrow> (PruneScores \<Rightarrow> int \<Rightarrow> error + thresh) \<Rightarrow>
   int list \<Rightarrow> 's \<Rightarrow> (PruneScores \<times> thresh) list" where
  "pass_results probe thr [] st = []"
| "pass_results probe thr (sz # rest) st =
     (case probe sz st of
        (Inl e, st') \<Rightarrow> []
      | (Inr new_scores, st') \<Rightarrow>
          (case thr new_scores sz of
             Inl e \<Rightarrow> []
           | Inr threshold \<Rightarrow> (new_scores, threshold) # pass_results probe thr rest st'))"

fun first_pass :: "(PruneScores \<times> thresh) list \<Rightarrow> edge \<Rightarrow> nat option" where
  "first_pass [] e = None"
| "first_pass ((new_scores, threshold) # rest) e =
     (if selected new_scores threshold e then Some 0 else map_option Suc (first_pass rest e))"

text \<open>
  The merged scores after the first \<open>i\<close> passes, and whether pass \<open>i\<close> (counted from 0)
  changed the score of an edge.
\<close>

definition scores_after ::
  "(int \<Rightarrow> 's \<Rightarrow> (error + PruneScores) \<times> 's) \<Rightarrow> (PruneScores \<Rightarrow> int \<Rightarrow> error + thresh) \<Rightarrow>
   'b task \<Rightarrow> int list \<Rightarrow> 's \<Rightarrow> nat \<Rightarrow> error + PruneScores" where
  "scores_after probe thr task sizes st i =
     fst (probing_loop probe thr (length sizes) 0 (take i sizes)
            (new_prune_scores (model_edges task)) st)"

definition scored_in_pass ::
  "(int \<Rightarrow> 's \<Rightarrow> (error + PruneScores) \<times> 's) \<Rightarrow> (PruneScores \<Rightarrow> int \<Rightarrow> error + thresh) \<Rightarrow>
   'b task \<Rightarrow> int list \<Rightarrow> 's \<Rightarrow> nat \<Rightarrow> edge \<Rightarrow> bool" where
  "scored_in_pass probe thr task sizes st i e =
     (case scores_after probe thr task sizes st i of
        Inl _ \<Rightarrow> False
      | Inr before \<Rightarrow>
          (case scores_after probe thr task sizes st (Suc i) of
             Inl _ \<Rightarrow> False
           | Inr after \<Rightarrow> score_at before e \<noteq> score_at after e))"

section \<open>Threshold for a circuit size (utils/tensor\_ops.py)\<close>

text \<open>
  Modelled from the spec: \<open>prune_scores_threshold\<close> is not among the sources. The spec:
  "given a target edge count k, must find the score value v such that exactly k edges have
  |score| >= v, tie-breaking consistently". The model takes the k-th largest magnitude;
  for \<open>k = 0\<close> it is \<open>+inf\<close>, above every score; a count outside \<open>0..total\<close> has no
  threshold.
\<close>

definition all_scores :: "PruneScores \<Rightarrow> real list" where
  "all_scores ps = concat (map snd ps)"

definition desc_abs_scores :: "PruneScores \<Rightarrow> real list" where
  "desc_abs_scores ps = rev (sort (map abs (all_scores ps)))"

definition prune_scores_threshold :: "PruneScores \<Rightarrow> int \<Rightarrow> error + thresh" where
  "prune_scores_threshold ps k =
     (if k = 0 then Inr PosInf
      else if k < 0 \<or> int (length (desc_abs_scores ps)) < k then Inl IndexError
      else Inr (Thresh (desc_abs_scores ps ! (nat k - 1))))"

text \<open>
  The size of the circuit a threshold cuts out, and a tie at the boundary: the k-th and the
  (k+1)-th largest magnitudes are equal.
\<close>

definition edges_at_or_above :: "PruneScores \<Rightarrow> thresh \<Rightarrow> nat" where
  "edges_at_or_above ps v = length (filter (\<lambda>x. at_least \<bar>x\<bar> v) (all_scores ps))"

definition tie_at_boundary :: "PruneScores \<Rightarrow> int \<Rightarrow> bool" where
  "tie_at_boundary ps k =
     (0 < k \<and> k < int (length (all_scores ps))
      \<and> desc_abs_scores ps ! (nat k - 1) = desc_abs_scores ps ! nat k)"

section \<open>Same-under-knockout training (metrics/completeness\_metrics/train\_same\_under\_knockouts.py)\<close>

text \<open>
  A scalar of a float tensor that may have left the finite range: division by zero does not
  raise in torch, it gives \<open>inf\<close> or \<open>nan\<close>. Finite values are exact reals.
  \<open>tdiv_int x n\<close> is \<open>x / n\<close> for a finite tensor scalar \<open>x\<close> and a Python int \<open>n\<close>;
  \<open>tmul\<close> and \<open>tadd\<close> are \<open>*\<close> and \<open>+\<close> with a finite operand.
\<close>

datatype tfloat = Finite real | PlusInf | MinusInf | NaN

fun tdiv_int :: "real \<Rightarrow> int \<Rightarrow> tfloat" where
  "tdiv_int x n =
     (if n \<noteq> 0 then Finite (x / real_of_int n)
      else if x > 0 then PlusInf
      else if x < 0 then MinusInf
      else NaN)"

fun tmul :: "tfloat \<Rightarrow> real \<Rightarrow> tfloat" where
  "tmul (Finite x) c = Finite (x * c)"
| "tmul PlusInf c = (if c > 0 then PlusInf else if c < 0 then MinusInf else NaN)"
| "tmul MinusInf c = (if c > 0 then MinusInf else if c < 0 then PlusInf else NaN)"
| "tmul NaN c = NaN"

fun tadd :: "real \<Rightarrow> tfloat \<Rightarrow> tfloat" where
  "tadd a (Finite x) = Finite (a + x)"
| "tadd a PlusInf = PlusInf"
| "tadd a MinusInf = MinusInf"
| "tadd a NaN = NaN"

text \<open>
  Lines 70-72, the module constants.
\<close>

definition mask_p :: real where "mask_p = 9 / 10"

definition left :: real where "left = - (1 / 10)"

definition right :: real where "right = 11 / 10"

definition temp :: real where "temp = 2 / 3"

definition p :: real where "p = (mask_p - left) / (right - left)"

definition init_mask_val :: real where "init_mask_val = ln (p / (1 - p))"






text \<open>
  Modelled from the spec: \<open>set_all_masks\<close> (utils/graph\_utils.py) is not among the sources;
  it sets every mask parameter of the model to \<open>val\<close>.
\<close>

definition set_all_masks :: "real \<Rightarrow> tensor list \<Rightarrow> tensor list" where
  "set_all_masks val masks = map (map (\<lambda>_. val)) masks"

text \<open>
  Line 92: \<open>int(circuit_size / 5)\<close>. \<open>int()\<close> truncates towards zero (the float division is
  exact for sizes below \<open>2^53\<close>).
\<close>

definition n_target_of :: "int \<Rightarrow> int" where
  "n_target_of circuit_size =
     (if 0 \<le> circuit_size then circuit_size div 5 else - ((- circuit_size) div 5))"

text \<open>
  Line 103: \<open>[algo_ps[m].abs() >= circuit_threshold for m in patch_masks.keys()]\<close>.
\<close>

fun circ_masks_of :: "PruneScores \<Rightarrow> thresh \<Rightarrow> mod_name list \<Rightarrow> error + bool list list" where
  "circ_masks_of algo_ps circuit_threshold [] = Inr []"
| "circ_masks_of algo_ps circuit_threshold (m # ms) =
     (case map_of algo_ps m of
        None \<Rightarrow> Inl KeyError
      | Some scores \<Rightarrow>
          (case circ_masks_of algo_ps circuit_threshold ms of
             Inl e \<Rightarrow> Inl e
           | Inr rest \<Rightarrow> Inr (map (\<lambda>x. at_least \<bar>x\<bar> circuit_threshold) scores # rest)))"

text \<open>
  Lines 121-123 and 129-131: \<open>t.where(circ, patch.data, full_like(patch.data, v),
  out=patch.data)\<close> for each pair of \<open>zip(circ_masks, mask_params)\<close>, written in place.
  \<open>zip\<close> stops at the shorter list; the mask parameters beyond it are left as they are.
\<close>

definition patch_where :: "real \<Rightarrow> bool list \<Rightarrow> tensor \<Rightarrow> error + tensor" where
  "patch_where v circ patch =
     (if length circ \<noteq> length patch then Inl ShapeError
      else Inr (map2 (\<lambda>c x. if c then x else v) circ patch))"

fun force_masks :: "real \<Rightarrow> bool list list \<Rightarrow> tensor list \<Rightarrow> error + tensor list" where
  "force_masks v [] mask_params = Inr mask_params"
| "force_masks v (circ # circ_masks) [] = Inr []"
| "force_masks v (circ # circ_masks) (patch # mask_params) =
     (case patch_where v circ patch of
        Inl e \<Rightarrow> Inl e
      | Inr patch' \<Rightarrow>
          (case force_masks v circ_masks mask_params of
             Inl e \<Rightarrow> Inl e
           | Inr rest \<Rightarrow> Inr (patch' # rest)))"

text \<open>
  What the step calls outside this file: the forward pass under the current patch masks
  (\<open>log_softmax(model(batch.clean)[model.out_slice])\<close>, in patch mode and with the
  hard-concrete mask function, so it reads the random source), \<open>multibatch_kl_div\<close> and
  \<open>sample_hard_concrete\<close>. \<open>'w\<close> is the outside state they read and change.
\<close>

record ('b, 'lp, 'w) externals =
  forward_logprobs :: "'b \<Rightarrow> tensor list \<Rightarrow> 'w \<Rightarrow> 'lp \<times> 'w"
  multibatch_kl_div :: "'lp \<Rightarrow> 'lp \<Rightarrow> real"
  sample_hard_concrete :: "tensor \<Rightarrow> 'w \<Rightarrow> tensor \<times> 'w"

text \<open>
  What a step leaves behind. \<open>forward_calls\<close> records the mask values that were live at each
  call of the model, in order; \<open>masks_after_forward\<close> is \<open>patch.data\<close> when
  \<open>loss.backward()\<close> runs. \<open>kl_div_term\<close>, \<open>reg_term\<close> and \<open>loss\<close> are the values
  appended to the three histories (\<open>reg_history\<close> holds \<open>reg_term\<close> times
  \<open>regularize_lambda\<close>).
\<close>

record 'lp passes =
  forward_calls :: "tensor list list"
  circuit_logprobs :: 'lp
  model_logprobs :: 'lp
  masks_after_forward :: "tensor list"

record 'lp step_trace =
  masks_before :: "tensor list"
  step_passes :: "'lp passes"
  kl_div_term :: real
  knockouts_sum :: real
  reg_term :: tfloat
  loss :: tfloat

text \<open>
  Lines 119-133: force, forward, force again, forward.
\<close>

definition knockout_forward_passes ::
  "('b, 'lp, 'w) externals \<Rightarrow> bool list list \<Rightarrow> 'b \<Rightarrow> tensor list \<Rightarrow> 'w
   \<Rightarrow> (error + 'lp passes) \<times> 'w" where
  "knockout_forward_passes ext circ_masks batch mask_params w =
     (case force_masks 99 circ_masks mask_params of
        Inl e \<Rightarrow> (Inl e, w)
      | Inr patched_all \<Rightarrow>
          (case forward_logprobs ext batch patched_all w of
             (circuit_lp, w1) \<Rightarrow>
               (case force_masks (- 99) circ_masks patched_all of
                  Inl e \<Rightarrow> (Inl e, w1)
                | Inr patched_none \<Rightarrow>
                    (case forward_logprobs ext batch patched_none w1 of
                       (model_lp, w2) \<Rightarrow>
                         (Inr \<lparr>forward_calls = [patched_all, patched_none],
                               circuit_logprobs = circuit_lp,
                               model_logprobs = model_lp,
                               masks_after_forward = patched_none\<rparr>, w2)))))"

text \<open>
  Lines 116-145, one batch. \<open>optim_step\<close> stands for \<open>loss.backward(); optim.step()\<close>:
  Adam's update of the mask parameters from the step just recorded.
\<close>

definition knockout_step ::
  "('b, 'lp, 'w) externals \<Rightarrow> ('lp step_trace \<Rightarrow> 'w \<Rightarrow> tensor list \<times> 'w) \<Rightarrow>
   bool list list \<Rightarrow> int \<Rightarrow> real \<Rightarrow> 'b \<Rightarrow> tensor list \<Rightarrow> 'w
   \<Rightarrow> (error + tensor list \<times> 'lp step_trace) \<times> 'w" where
  "knockout_step ext optim_step circ_masks n_target regularize_lambda batch mask_params w =
     (case knockout_forward_passes ext circ_masks batch mask_params w of
        (Inl e, w') \<Rightarrow> (Inl e, w')
      | (Inr ps, w2) \<Rightarrow>
          (let kl = - multibatch_kl_div ext (circuit_logprobs ps) (model_logprobs ps);
               flat_masks = concat (masks_after_forward ps)
           in case sample_hard_concrete ext flat_masks w2 of
                (knockouts_samples, w3) \<Rightarrow>
                  (let reg = tdiv_int (max 0 (sum_list knockouts_samples - real_of_int n_target))
                               n_target;
                       tr = \<lparr>masks_before = mask_params,
                             step_passes = ps,
                             kl_div_term = kl,
                             knockouts_sum = sum_list knockouts_samples,
                             reg_term = reg,
                             loss = tadd kl (tmul reg regularize_lambda)\<rparr>
                   in case optim_step tr w3 of
                        (mask_params', w4) \<Rightarrow> (Inr (mask_params', tr), w4))))"

text \<open>
  Lines 110-113: the loops over epochs and batches. The steps are collected in the order
  they ran, as \<open>loss_history\<close>, \<open>kl_div_history\<close> and \<open>reg_history\<close> are.
\<close>

fun train_batches ::
  "('b, 'lp, 'w) externals \<Rightarrow> ('lp step_trace \<Rightarrow> 'w \<Rightarrow> tensor list \<times> 'w) \<Rightarrow>
   bool list list \<Rightarrow> int \<Rightarrow> real \<Rightarrow> 'b list \<Rightarrow> tensor list \<Rightarrow> 'w
   \<Rightarrow> (error + tensor list \<times> 'lp step_trace list) \<times> 'w" where
  "train_batches ext optim_step circ_masks n_target lam [] mask_params w = (Inr (mask_params, []), w)"
| "train_batches ext optim_step circ_masks n_target lam (batch # rest) mask_params w =
     (case knockout_step ext optim_step circ_masks n_target lam batch mask_params w of
        (Inl e, w') \<Rightarrow> (Inl e, w')
      | (Inr (mask_params', tr), w') \<Rightarrow>
          (case train_batches ext optim_step circ_masks n_target lam rest mask_params' w' of
             (Inl e, w'') \<Rightarrow> (Inl e, w'')
           | (Inr (mask_params'', trs), w'') \<Rightarrow> (Inr (mask_params'', tr # trs), w'')))"

fun train_epochs ::
  "('b, 'lp, 'w) externals \<Rightarrow> ('lp step_trace \<Rightarrow> 'w \<Rightarrow> tensor list \<times> 'w) \<Rightarrow>
   bool list list \<Rightarrow> int \<Rightarrow> real \<Rightarrow> 'b list \<Rightarrow> nat \<Rightarrow> tensor list \<Rightarrow> 'w
   \<Rightarrow> (error + tensor list \<times> 'lp step_trace list) \<times> 'w" where
  "train_epochs ext optim_step circ_masks n_target lam batches 0 mask_params w =
     (Inr (mask_params, []), w)"
| "train_epochs ext optim_step circ_masks n_target lam batches (Suc epochs) mask_params w =
     (case train_batches ext optim_step circ_masks n_target lam batches mask_params w of
        (Inl e, w') \<Rightarrow> (Inl e, w')
      | (Inr (mask_params', trs), w') \<Rightarrow>
          (case train_epochs ext optim_step circ_masks n_target lam batches epochs mask_params' w' of
             (Inl e, w'') \<Rightarrow> (Inl e, w'')
           | (Inr (mask_params'', trs'), w'') \<Rightarrow> (Inr (mask_params'', trs @ trs'), w'')))"

text \<open>
  Lines 90-159. \<open>thr\<close> is \<open>prune_scores_threshold\<close>, a parameter as in circuit probing.
  The mask parameters are those of \<open>train_mask_mode(model)\<close>, one tensor per module of the
  model. The result is \<open>completeness_prune_scores\<close> with the history of the steps;
  \<open>run_history\<close> and \<open>run_scores\<close> read the two parts of a result.
\<close>

definition train_same_under_knockout_prune_scores ::
  "('b, 'lp, 'w) externals \<Rightarrow> ('lp step_trace \<Rightarrow> 'w \<Rightarrow> tensor list \<times> 'w) \<Rightarrow>
   (PruneScores \<Rightarrow> int \<Rightarrow> error + thresh) \<Rightarrow>
   'b task \<Rightarrow> PruneScores \<Rightarrow> int \<Rightarrow> int \<Rightarrow> real \<Rightarrow> 'w
   \<Rightarrow> (error + PruneScores \<times> 'lp step_trace list) \<times> 'w" where
  "train_same_under_knockout_prune_scores ext optim_step thr task algo_ps circuit_size epochs
       regularize_lambda w =
     (case thr algo_ps circuit_size of
        Inl e \<Rightarrow> (Inl e, w)
      | Inr circuit_threshold \<Rightarrow>
          (let n_target = n_target_of circuit_size;
               mods = map fst (model_edges task);
               patch_masks = set_all_masks 0 (map (\<lambda>(m, n). replicate n 0) (model_edges task))
           in case circ_masks_of algo_ps circuit_threshold mods of
                Inl e \<Rightarrow> (Inl e, w)
              | Inr circ_masks \<Rightarrow>
                  (case train_epochs ext optim_step circ_masks n_target regularize_lambda
                          (test_loader task) (nat epochs)
                          (set_all_masks (- init_mask_val) patch_masks) w of
                     (Inl e, w') \<Rightarrow> (Inl e, w')
                   | (Inr (mask_params, history), w') \<Rightarrow>
                       (Inr (zip mods mask_params, history), w'))))"

definition run_history :: "(error + PruneScores \<times> 'lp step_trace list) \<times> 'w \<Rightarrow> 'lp step_trace list" where
  "run_history r = (case fst r of Inl e \<Rightarrow> [] | Inr (scores, history) \<Rightarrow> history)"


subsection \<open>The loss and the knockout partition in the words of the spec\<close>

text \<open>
  The loss as the spec writes it, with \<open>n_target = circuit_size / 5\<close>.
\<close>

definition spec_n_target :: "int \<Rightarrow> real" where
  "spec_n_target circuit_size = real_of_int circuit_size / 5"

definition spec_loss :: "real \<Rightarrow> real \<Rightarrow> real \<Rightarrow> int \<Rightarrow> real" where
  "spec_loss kl regularize_lambda expected_open_knockouts circuit_size =
     - kl + regularize_lambda
            * (max 0 (expected_open_knockouts - spec_n_target circuit_size)
               / spec_n_target circuit_size)"

text \<open>
  The partition as the spec writes it: in a forward pass the in-circuit edges are forced to
  a saturating value and the out-of-circuit edges carry their learnable mask value.
\<close>

definition spec_knockout_pass :: "bool list list \<Rightarrow> tensor list \<Rightarrow> tensor list \<Rightarrow> bool" where
  "spec_knockout_pass circ_masks learnable live =
     list_all (\<lambda>(circ, before, used).
        list_all (\<lambda>(c, b, u). if c then u = 99 \<or> u = - 99 else u = b) (zip circ (zip before used)))
       (zip circ_masks (zip learnable live))"

section \<open>Example inputs\<close>

text \<open>
  A model with one module of three edges and a training procedure that returns fixed scores
  for sizes 1 and 2; externals whose forward pass returns the live masks, whose KL divergence
  is 1/4 and whose hard-concrete sample is the given tensor (0 at the edge forced to -99);
  an optimiser that leaves the masks as the forward passes left them.
\<close>

definition ex_task :: "unit task" where
  "ex_task = \<lparr>model_edges = [(''a'', 3)], true_edges = Some [(''a'', 0), (''a'', 1)],
              true_edge_count = Some 2, test_loader = [()]\<rparr>"

definition ex_probe :: "int \<Rightarrow> nat \<Rightarrow> (error + PruneScores) \<times> nat" where
  "ex_probe sz st = (Inr [(''a'', if sz = 1 then [5, 1, 0] else [4, 3, 0])], Suc st)"

definition ex_ext :: "tensor \<Rightarrow> (unit, tensor list, nat) externals" where
  "ex_ext samples = \<lparr>forward_logprobs = (\<lambda>batch masks w. (masks, Suc w)),
               multibatch_kl_div = (\<lambda>c m. 1 / 4),
               sample_hard_concrete = (\<lambda>flat w. (map2 (\<lambda>x s. s) flat samples, Suc w))\<rparr>"

definition ex_samples :: tensor where
  "ex_samples = [1 / 5, 1 / 5, 1 / 5, 1 / 5, 1 / 5, 1 / 10, 0]"

definition ex_optim :: "tensor list step_trace \<Rightarrow> nat \<Rightarrow> tensor list \<times> nat" where
  "ex_optim tr w = (masks_after_forward (step_passes tr), Suc w)"

definition ex_knockout_task :: "unit task" where
  "ex_knockout_task = \<lparr>model_edges = [(''a'', 7)], true_edges = None,
              true_edge_count = Some 6, test_loader = [()]\<rparr>"

definition ex_algo_ps :: PruneScores where
  "ex_algo_ps = [(''a'', [7, - 6, 5, 4, 3, 2, 1])]"

definition ex_small_task :: "unit task" where
  "ex_small_task = \<lparr>model_edges = [(''a'', 4)], true_edges = None,
                     true_edge_count = Some 3, test_loader = [()]\<rparr>"

definition ex_small_ps :: PruneScores where
  "ex_small_ps = [(''a'', [5, - 1, 4, 3])]"

lemmas example_defs =
  ex_ext_def ex_samples_def ex_optim_def ex_knockout_task_def ex_algo_ps_def ex_small_task_def ex_small_ps_def

lemmas knockout_eval =
  train_same_under_knockout_prune_scores_def knockout_step_def knockout_forward_passes_def
  patch_where_def set_all_masks_def n_target_of_def prune_scores_threshold_def
  desc_abs_scores_def all_scores_def run_history_def Let_def eval_nat_numeral

section \<open>Circuit probing: the precondition on the requested sizes\<close>

lemma resolve_size_Inr:
  "resolve_size task sz = Inr n \<longleftrightarrow> resolved_value task sz = Some n \<and> n > 0"
  by (auto simp: resolve_size_def resolved_value_def split: size_arg.splits option.splits)

lemma resolve_size_Inl:
  "resolve_size task sz = Inl e \<Longrightarrow> e = AssertionError"
  by (auto simp: resolve_size_def split: size_arg.splits option.splits if_splits)

lemma resolve_sizes_Inl:
  "resolve_sizes task cs = Inl e \<Longrightarrow> e = AssertionError"
  by (induction cs arbitrary: e)
     (auto split: sum.splits dest: resolve_size_Inl)

lemma resolve_sizes_Inr:
  "resolve_sizes task cs = Inr sizes \<longleftrightarrow>
     list_all (\<lambda>sz. case resolved_value task sz of None \<Rightarrow> False | Some n \<Rightarrow> n > 0) cs
     \<and> map (resolved_value task) cs = map Some sizes"
proof (induction cs arbitrary: sizes)
  case Nil
  then show ?case by auto
next
  case (Cons sz cs)
  show ?case
  proof (cases "resolve_size task sz")
    case (Inl e)
    then have "\<not> (\<exists>n. resolved_value task sz = Some n \<and> n > 0)"
      using resolve_size_Inr [of task sz] by auto
    then show ?thesis using Inl by (auto split: option.splits)
  next
    case (Inr n)
    then have n: "resolved_value task sz = Some n" "n > 0"
      using resolve_size_Inr [of task sz n] by auto
    show ?thesis
    proof (cases "resolve_sizes task cs")
      case (Inl e)
      then have "\<not> (\<exists>ns. resolve_sizes task cs = Inr ns)" by simp
      then show ?thesis using Inl Inr n Cons.IH by (auto simp: map_eq_Cons_conv)
    next
      case (Inr ns)
      with Cons.IH [of ns] \<open>resolve_size task sz = Inr n\<close> n show ?thesis
        by (auto simp: map_eq_Cons_conv)
    qed
  qed
qed

lemma sorted_circuit_sizes_Inl:
  "sorted_circuit_sizes task cs = Inl e \<Longrightarrow> e = AssertionError"
  by (auto simp: sorted_circuit_sizes_def split: sum.splits if_splits dest: resolve_sizes_Inl)

lemma sorted_circuit_sizes_Inr:
  "(\<exists>sizes. sorted_circuit_sizes task cs = Inr sizes) \<longleftrightarrow> distinct_positive_sizes task cs"
proof
  assume "\<exists>sizes. sorted_circuit_sizes task cs = Inr sizes"
  then obtain sizes where r: "resolve_sizes task cs = Inr sizes"
    and c: "card (set sizes) = length sizes"
    by (auto simp: sorted_circuit_sizes_def split: sum.splits if_splits)
  from r have a: "list_all (\<lambda>sz. case resolved_value task sz of None \<Rightarrow> False | Some n \<Rightarrow> n > 0) cs"
    and m: "map (resolved_value task) cs = map Some sizes"
    by (simp_all add: resolve_sizes_Inr)
  from c have "distinct sizes" by (rule card_distinct)
  then have "distinct (map Some sizes)" by (simp add: distinct_map)
  with a m show "distinct_positive_sizes task cs"
    by (simp add: distinct_positive_sizes_def)
next
  assume v: "distinct_positive_sizes task cs"
  then have a: "list_all (\<lambda>sz. case resolved_value task sz of None \<Rightarrow> False | Some n \<Rightarrow> n > 0) cs"
    and d: "distinct (map (resolved_value task) cs)"
    by (simp_all add: distinct_positive_sizes_def)
  from a have "\<forall>x \<in> set (map (resolved_value task) cs). x \<noteq> None"
    by (auto simp: list_all_iff split: option.splits)
  then have m: "map (resolved_value task) cs = map Some (map the (map (resolved_value task) cs))"
    by (induction cs) auto
  define sizes where "sizes = map the (map (resolved_value task) cs)"
  from m have m': "map (resolved_value task) cs = map Some sizes" by (simp add: sizes_def)
  with a have r: "resolve_sizes task cs = Inr sizes" by (simp add: resolve_sizes_Inr)
  from d m' have "distinct (map Some sizes)" by simp
  then have "distinct sizes" by (simp add: distinct_map)
  then have c: "card (set sizes) = length sizes" by (rule distinct_card)
  have l: "length sizes = length cs" by (simp add: sizes_def)
  from r c l show "\<exists>sizes. sorted_circuit_sizes task cs = Inr sizes"
    by (simp add: sorted_circuit_sizes_def)
qed

lemma sorted_circuit_sizes_ascending:
  assumes "sorted_circuit_sizes task circuit_sizes = Inr sizes"
  shows "sorted sizes" and "distinct sizes" and "\<forall>k \<in> set sizes. 0 < k"
    and "length sizes = length circuit_sizes"
proof -
  from assms obtain rs where r: "resolve_sizes task circuit_sizes = Inr rs"
    and c: "card (set rs) = length rs" and l: "length rs = length circuit_sizes"
    and s: "sizes = sort rs"
    by (auto simp: sorted_circuit_sizes_def split: sum.splits if_splits)
  show "sorted sizes" using s by simp
  from c have "distinct rs" by (rule card_distinct)
  then show "distinct sizes" using s by simp
  show "length sizes = length circuit_sizes" using s l by simp
  from r have "list_all (\<lambda>sz. case resolved_value task sz of None \<Rightarrow> False | Some n \<Rightarrow> n > 0) circuit_sizes"
    and "map (resolved_value task) circuit_sizes = map Some rs"
    by (simp_all add: resolve_sizes_Inr)
  then have "\<forall>k \<in> set rs. 0 < k"
  proof (induction circuit_sizes arbitrary: rs)
    case Nil
    then show ?case by simp
  next
    case (Cons c cs)
    then show ?case by (cases rs) auto
  qed
  then show "\<forall>k \<in> set sizes. 0 < k" using s by simp
qed

text \<open>
  C9. When the requested sizes do not resolve to distinct positive integers,
  \<open>circuit_probing_prune_scores\<close> raises AssertionError and the outside state is the one it
  was called with: no training has run. When they do, the passes are trained for exactly
  the requested sizes, in ascending order, none dropped and none altered.
\<close>

theorem circuit_sizes_precondition:
  "(\<not> distinct_positive_sizes task circuit_sizes \<longrightarrow>
      circuit_probing_prune_scores probe thr task circuit_sizes st = (Inl AssertionError, st))
   \<and> (distinct_positive_sizes task circuit_sizes \<longrightarrow>
      sorted_circuit_sizes task circuit_sizes
        = Inr (sort (map (\<lambda>sz. the (resolved_value task sz)) circuit_sizes)))"
proof (intro conjI impI)
  assume "\<not> distinct_positive_sizes task circuit_sizes"
  then have "\<not> (\<exists>sizes. sorted_circuit_sizes task circuit_sizes = Inr sizes)"
    by (simp add: sorted_circuit_sizes_Inr)
  then obtain e where e: "sorted_circuit_sizes task circuit_sizes = Inl e"
    by (cases "sorted_circuit_sizes task circuit_sizes") auto
  then have "e = AssertionError" by (rule sorted_circuit_sizes_Inl)
  with e show "circuit_probing_prune_scores probe thr task circuit_sizes st = (Inl AssertionError, st)"
    by (simp add: circuit_probing_prune_scores_def)
next
  assume "distinct_positive_sizes task circuit_sizes"
  then obtain sorted_sizes where s: "sorted_circuit_sizes task circuit_sizes = Inr sorted_sizes"
    using sorted_circuit_sizes_Inr [of task circuit_sizes] by auto
  then obtain sizes where r: "resolve_sizes task circuit_sizes = Inr sizes"
    and srt: "sorted_sizes = sort sizes"
    by (auto simp: sorted_circuit_sizes_def split: sum.splits if_splits)
  from r have "map (resolved_value task) circuit_sizes = map Some sizes"
    by (simp add: resolve_sizes_Inr)
  then have "map the (map (resolved_value task) circuit_sizes) = sizes"
    by (simp add: comp_def)
  then have "sizes = map (\<lambda>sz. the (resolved_value task sz)) circuit_sizes"
    by (simp add: comp_def)
  with s srt show "sorted_circuit_sizes task circuit_sizes
        = Inr (sort (map (\<lambda>sz. the (resolved_value task sz)) circuit_sizes))"
    by simp
qed

lemma ex_sorted_sizes: "sorted_circuit_sizes ex_task [TrueSize, IntSize 1] = Inr [1, 2]"
  by code_simp

lemma ex_probing_run:
  "circuit_probing_prune_scores ex_probe prune_scores_threshold ex_task [TrueSize, IntSize 1] 0
     = (Inr [(''a'', [2, 1, 0])], 2)"
  by code_simp

theorem circuit_sizes_precondition_witness:
  "\<not> distinct_positive_sizes ex_task [IntSize 2, TrueSize]
   \<and> circuit_probing_prune_scores ex_probe prune_scores_threshold ex_task [IntSize 2, TrueSize] 0
       = (Inl AssertionError, 0)
   \<and> distinct_positive_sizes ex_task [TrueSize, IntSize 1]
   \<and> sorted_circuit_sizes ex_task [TrueSize, IntSize 1] = Inr [1, 2]"
proof -
  have bad: "\<not> distinct_positive_sizes ex_task [IntSize 2, TrueSize]"
    by (simp add: distinct_positive_sizes_def resolved_value_def ex_task_def)
  have good: "distinct_positive_sizes ex_task [TrueSize, IntSize 1]"
    by (simp add: distinct_positive_sizes_def resolved_value_def ex_task_def)
  from bad circuit_sizes_precondition
    [of ex_task "[IntSize 2, TrueSize]" ex_probe prune_scores_threshold 0]
  have 1: "circuit_probing_prune_scores ex_probe prune_scores_threshold ex_task
             [IntSize 2, TrueSize] 0 = (Inl AssertionError, 0)"
    by simp
  from good circuit_sizes_precondition
    [of ex_task "[TrueSize, IntSize 1]" ex_probe prune_scores_threshold 0]
  have 2: "sorted_circuit_sizes ex_task [TrueSize, IntSize 1] = Inr [1, 2]"
    by (simp add: resolved_value_def ex_task_def)
  from bad good 1 2 show ?thesis by simp
qed

section \<open>Circuit probing: the merge of the passes\<close>

lemma where_new_circuit_length:
  "length new_ps = length curr_ps \<Longrightarrow> length (where_new_circuit th s new_ps curr_ps) = length curr_ps"
  by (simp add: where_new_circuit_def)

lemma where_new_circuit_nth:
  "length new_ps = length curr_ps \<Longrightarrow> j < length curr_ps \<Longrightarrow>
   where_new_circuit th s new_ps curr_ps ! j
     = (if at_least (new_ps ! j) th \<and> curr_ps ! j = 0 then s else curr_ps ! j)"
  by (simp add: where_new_circuit_def)

lemma score_at_update:
  "score_at (AList.update m t ps) e =
     (if fst e = m then (if snd e < length t then Some (t ! snd e) else None) else score_at ps e)"
  by (simp add: score_at_def update_conv')

lemma merge_scores_score_at:
  "merge_scores th s new_scores ps = Inr ps' \<Longrightarrow>
   score_at ps' e =
     (case score_at ps e of
        None \<Rightarrow> None
      | Some v \<Rightarrow> Some (if v = 0 \<and> selected new_scores th e then s else v))"
proof (induction new_scores arbitrary: ps)
  case Nil
  then show ?case by (simp add: selected_def split: option.splits)
next
  case (Cons a rest)
  obtain m t where a: "a = (m, t)" by (cases a)
  from Cons.prems a obtain cur where cur: "map_of ps m = Some cur"
    and len: "length t = length cur"
    and rec: "merge_scores th s rest (AList.update m (where_new_circuit th s t cur) ps) = Inr ps'"
    by (auto split: option.splits if_splits)
  note ih = Cons.IH [OF rec]
  show ?case
  proof (cases "fst e = m")
    case False
    then have "selected (a # rest) th e = selected rest th e"
      using a by (auto simp: selected_def)
    then show ?thesis using ih False by (simp add: score_at_update split: option.splits)
  next
    case True
    define ps1 where "ps1 = AList.update m (where_new_circuit th s t cur) ps"
    have s1: "score_at ps1 e =
        (if snd e < length cur
         then Some (if at_least (t ! snd e) th \<and> cur ! snd e = 0 then s else cur ! snd e)
         else None)"
      using True len
      by (simp add: ps1_def score_at_update where_new_circuit_length where_new_circuit_nth)
    have s0: "score_at ps e = (if snd e < length cur then Some (cur ! snd e) else None)"
      using True cur by (simp add: score_at_def)
    have sel: "selected (a # rest) th e \<longleftrightarrow>
        (snd e < length cur \<and> at_least (t ! snd e) th) \<or> selected rest th e"
      using a True len by (auto simp: selected_def)
    from ih have "score_at ps' e =
       (case score_at ps1 e of
          None \<Rightarrow> None
        | Some v \<Rightarrow> Some (if v = 0 \<and> selected rest th e then s else v))"
      by (simp add: ps1_def)
    then show ?thesis
      by (simp add: s0 s1 sel)
  qed
qed

lemma probing_pass_Inr:
  assumes "probing_pass probe thr n k sz ps st = (Inr ps', st')"
  obtains new_scores th where "probe sz st = (Inr new_scores, st')" "thr new_scores sz = Inr th"
    "merge_scores th (real_of_int (int n - int k)) new_scores ps = Inr ps'"
  using assms unfolding probing_pass_def
  by (auto split: prod.splits sum.splits if_splits)

lemma probing_loop_closed:
  "probing_loop probe thr n k sizes ps st = (Inr ps', st') \<Longrightarrow> k + length sizes \<le> n \<Longrightarrow>
   length (pass_results probe thr sizes st) = length sizes \<and>
   score_at ps' e =
     (case score_at ps e of
        None \<Rightarrow> None
      | Some v \<Rightarrow>
          Some (if v = 0
                then (case first_pass (pass_results probe thr sizes st) e of
                        None \<Rightarrow> 0
                      | Some i \<Rightarrow> real (n - (k + i)))
                else v))"
proof (induction sizes arbitrary: k ps st)
  case Nil
  then show ?case by (simp split: option.splits)
next
  case (Cons sz rest)
  from Cons.prems(1) obtain ps1 st1 where p: "probing_pass probe thr n k sz ps st = (Inr ps1, st1)"
    and l: "probing_loop probe thr n (Suc k) rest ps1 st1 = (Inr ps', st')"
    by (auto split: prod.splits sum.splits)
  from p obtain new_scores th where pr: "probe sz st = (Inr new_scores, st1)"
    and t: "thr new_scores sz = Inr th"
    and m: "merge_scores th (real_of_int (int n - int k)) new_scores ps = Inr ps1"
    by (rule probing_pass_Inr)
  from Cons.prems(2) have k: "k < n" "Suc k + length rest \<le> n" by simp_all
  note ih = Cons.IH [OF l k(2)]
  note ms = merge_scores_score_at [OF m, of e]
  have tr: "pass_results probe thr (sz # rest) st = (new_scores, th) # pass_results probe thr rest st1"
    using pr t by simp
  have sc: "real_of_int (int n - int k) = real (n - k)" "real (n - k) \<noteq> 0"
    using k(1) by simp_all
  show ?case
  proof (cases "score_at ps e")
    case None
    then show ?thesis using ih ms tr by simp
  next
    case (Some v)
    show ?thesis
    proof (cases "v = 0 \<and> selected new_scores th e")
      case True
      then show ?thesis using ih ms tr Some sc by simp
    next
      case False
      then show ?thesis using ih ms tr Some sc
        by (auto split: option.splits)
    qed
  qed
qed

lemma probing_loop_append:
  "probing_loop probe thr n k (xs @ ys) ps st =
     (case probing_loop probe thr n k xs ps st of
        (Inl e, st') \<Rightarrow> (Inl e, st')
      | (Inr ps', st') \<Rightarrow> probing_loop probe thr n (k + length xs) ys ps' st')"
  by (induction xs arbitrary: k ps st) (auto split: prod.splits sum.splits)

lemma scored_in_pass_final:
  assumes run: "probing_loop probe thr (length sizes) 0 sizes (new_prune_scores (model_edges task)) st
                  = (Inr final, st_f)"
    and i: "i < length sizes"
    and sc: "scored_in_pass probe thr task sizes st i e"
  shows "scores_after probe thr task sizes st (Suc i) = Inr b \<longrightarrow>
           score_at b e = Some (real (length sizes - i))"
    and "score_at final e = Some (real (length sizes - i))"
proof -
  let ?n = "length sizes"
  let ?ps0 = "new_prune_scores (model_edges task)"
  have split: "sizes = take i sizes @ (sizes ! i # drop (Suc i) sizes)"
    using i by (simp add: Cons_nth_drop_Suc)
  have tk: "take (Suc i) sizes = take i sizes @ [sizes ! i]"
    using i by (simp add: take_Suc_conv_app_nth)
  from sc obtain a a' where a: "scores_after probe thr task sizes st i = Inr a"
    and a': "scores_after probe thr task sizes st (Suc i) = Inr a'"
    and ne: "score_at a e \<noteq> score_at a' e"
    by (auto simp: scored_in_pass_def split: sum.splits)
  from a obtain st_a where la: "probing_loop probe thr ?n 0 (take i sizes) ?ps0 st = (Inr a, st_a)"
    by (cases "probing_loop probe thr ?n 0 (take i sizes) ?ps0 st") (auto simp: scores_after_def)
  from a' la obtain st_a' where
    lb: "probing_loop probe thr ?n i [sizes ! i] a st_a = (Inr a', st_a')"
    using i
    by (cases "probing_loop probe thr ?n i [sizes ! i] a st_a")
       (auto simp: scores_after_def tk probing_loop_append min_def)
  have lc: "probing_loop probe thr ?n (Suc i) (drop (Suc i) sizes) a' st_a' = (Inr final, st_f)"
  proof -
    have "probing_loop probe thr ?n 0 (take i sizes @ ([sizes ! i] @ drop (Suc i) sizes)) ?ps0 st
            = (Inr final, st_f)"
      using run split by simp
    then show ?thesis using la lb i
      by (simp only: probing_loop_append) (simp add: min_def)
  qed
  from probing_loop_closed [OF lb, of e] i
  have b1: "score_at a' e =
     (case score_at a e of
        None \<Rightarrow> None
      | Some v \<Rightarrow>
          Some (if v = 0
                then (case first_pass (pass_results probe thr [sizes ! i] st_a) e of
                        None \<Rightarrow> 0
                      | Some j \<Rightarrow> real (?n - (i + j)))
                else v))"
    by simp
  have fp: "first_pass (pass_results probe thr [sizes ! i] st_a) e = None
            \<or> first_pass (pass_results probe thr [sizes ! i] st_a) e = Some 0"
    by (auto split: prod.splits sum.splits)
  from b1 ne fp have va: "score_at a' e = Some (real (?n - i))"
    by (auto split: option.splits if_splits)
  from probing_loop_closed [OF lc, of e] i
  have "score_at final e =
     (case score_at a' e of
        None \<Rightarrow> None
      | Some v \<Rightarrow>
          Some (if v = 0
                then (case first_pass (pass_results probe thr (drop (Suc i) sizes) st_a') e of
                        None \<Rightarrow> 0
                      | Some j \<Rightarrow> real (?n - (Suc i + j)))
                else v))"
    by simp
  with va i show "score_at final e = Some (real (?n - i))" by simp
  from va a' show "scores_after probe thr task sizes st (Suc i) = Inr b \<longrightarrow>
           score_at b e = Some (real (length sizes - i))" by auto
qed

text \<open>
  C1. First found wins. In a run over the ascending distinct positive sizes, an edge whose
  score a pass changes has, in the returned scores, exactly the score that pass gave it,
  whatever the later passes train; and of two edges scored by different passes, the edge of
  the earlier pass, which is the pass of the smaller size, has the strictly higher score.
\<close>

theorem first_found_wins:
  assumes "circuit_probing_prune_scores probe thr task circuit_sizes st = (Inr final, st_f)"
    and "sorted_circuit_sizes task circuit_sizes = Inr sizes"
  shows "(\<forall>i e b. i < length sizes \<and> scored_in_pass probe thr task sizes st i e
              \<and> scores_after probe thr task sizes st (Suc i) = Inr b
            \<longrightarrow> score_at final e = score_at b e)
       \<and> (\<forall>i j e e'. i < j \<and> j < length sizes
              \<and> scored_in_pass probe thr task sizes st i e
              \<and> scored_in_pass probe thr task sizes st j e'
            \<longrightarrow> sizes ! i < sizes ! j
                \<and> (\<exists>v v'. score_at final e = Some v \<and> score_at final e' = Some v' \<and> v' < v))"
proof -
  from assms have run:
    "probing_loop probe thr (length sizes) 0 sizes (new_prune_scores (model_edges task)) st
       = (Inr final, st_f)"
    by (simp add: circuit_probing_prune_scores_def)
  have asc: "sorted sizes" "distinct sizes"
    using sorted_circuit_sizes_ascending [OF assms(2)] by simp_all
  have retain: "score_at final e = score_at b e"
    if "i < length sizes" "scored_in_pass probe thr task sizes st i e"
       "scores_after probe thr task sizes st (Suc i) = Inr b" for i e b
    using scored_in_pass_final(1) [OF run that(1) that(2), of b]
          scored_in_pass_final(2) [OF run that(1) that(2)] that(3) by simp
  have order: "sizes ! i < sizes ! j
      \<and> (\<exists>v v'. score_at final e = Some v \<and> score_at final e' = Some v' \<and> v' < v)"
    if "i < j" "j < length sizes" "scored_in_pass probe thr task sizes st i e"
       "scored_in_pass probe thr task sizes st j e'" for i j e e'
  proof -
    from that have i: "i < length sizes" by simp
    have 1: "score_at final e = Some (real (length sizes - i))"
      using scored_in_pass_final(2) [OF run i that(3)] .
    have 2: "score_at final e' = Some (real (length sizes - j))"
      using scored_in_pass_final(2) [OF run that(2) that(4)] .
    have "sizes ! i \<le> sizes ! j"
      using asc(1) that(1,2) by (simp add: sorted_nth_mono)
    moreover have "sizes ! i \<noteq> sizes ! j"
      using asc(2) that(1,2) i by (simp add: nth_eq_iff_index_eq)
    ultimately have "sizes ! i < sizes ! j" by simp
    moreover have "real (length sizes - j) < real (length sizes - i)"
      using that(1,2) by simp
    ultimately show ?thesis using 1 2 by simp
  qed
  from retain order show ?thesis by blast
qed

lemma ex_scored_0: "scored_in_pass ex_probe prune_scores_threshold ex_task [1, 2] 0 0 (''a'', 0)"
  by code_simp

lemma ex_scored_1: "scored_in_pass ex_probe prune_scores_threshold ex_task [1, 2] 0 (Suc 0) (''a'', Suc 0)"
  by code_simp

lemma ex_after_1:
  "scores_after ex_probe prune_scores_threshold ex_task [1, 2] 0 (Suc 0) = Inr [(''a'', [2, 0, 0])]"
  by code_simp

theorem first_found_wins_witness:
  "circuit_probing_prune_scores ex_probe prune_scores_threshold ex_task [TrueSize, IntSize 1] 0
     = (Inr [(''a'', [2, 1, 0])], 2)
   \<and> scored_in_pass ex_probe prune_scores_threshold ex_task [1, 2] 0 0 (''a'', 0)
   \<and> scored_in_pass ex_probe prune_scores_threshold ex_task [1, 2] 0 (Suc 0) (''a'', Suc 0)
   \<and> score_at [(''a'', [2, 1, 0])] (''a'', 0) = score_at [(''a'', [2, 0, 0])] (''a'', 0)
   \<and> score_at [(''a'', [2, 1, 0])] (''a'', 0) = Some 2
   \<and> score_at [(''a'', [2, 1, 0])] (''a'', Suc 0) = Some 1"
proof -
  note w = first_found_wins [OF ex_probing_run ex_sorted_sizes]
  from w have keep: "\<And>i e b. i < length [1, 2::int]
        \<Longrightarrow> scored_in_pass ex_probe prune_scores_threshold ex_task [1, 2] 0 i e
        \<Longrightarrow> scores_after ex_probe prune_scores_threshold ex_task [1, 2] 0 (Suc i) = Inr b
        \<Longrightarrow> score_at [(''a'', [2, 1, 0])] e = score_at b e"
    by blast
  from w have order: "\<And>i j e e'. i < j \<Longrightarrow> j < length [1, 2::int]
        \<Longrightarrow> scored_in_pass ex_probe prune_scores_threshold ex_task [1, 2] 0 i e
        \<Longrightarrow> scored_in_pass ex_probe prune_scores_threshold ex_task [1, 2] 0 j e'
        \<Longrightarrow> \<exists>v v'. score_at [(''a'', [2, 1, 0])] e = Some v
              \<and> score_at [(''a'', [2, 1, 0])] e' = Some v' \<and> v' < v"
    by blast
  have 1: "score_at [(''a'', [2, 1, 0])] (''a'', 0) = score_at [(''a'', [2, 0, 0])] (''a'', 0)"
    by (rule keep [OF _ ex_scored_0 ex_after_1]) simp
  have "\<exists>v v'. score_at [(''a'', [2, 1, 0])] (''a'', 0) = Some v
              \<and> score_at [(''a'', [2, 1, 0])] (''a'', Suc 0) = Some v' \<and> v' < v"
    by (rule order [OF _ _ ex_scored_0 ex_scored_1]) simp_all
  then have 2: "score_at [(''a'', [2, 1, 0])] (''a'', 0) = Some 2
      \<and> score_at [(''a'', [2, 1, 0])] (''a'', Suc 0) = Some 1"
    by (simp add: score_at_def)
  from ex_probing_run ex_scored_0 ex_scored_1 1 2 show ?thesis by simp
qed

text \<open>
  C10. In a run with \<open>n\<close> requested sizes every returned per-edge value is an integer
  between 0 and \<open>n\<close>: it is \<open>n - i\<close> exactly for the edges first selected by pass \<open>i\<close>
  (passes counted from 0 in ascending size) and 0 exactly for the edges no pass selected.
\<close>

theorem probing_scores_range:
  assumes "circuit_probing_prune_scores probe thr task circuit_sizes st = (Inr final, st_f)"
    and "sorted_circuit_sizes task circuit_sizes = Inr sizes"
    and "score_at final e = Some v"
  shows "length (pass_results probe thr sizes st) = length circuit_sizes
       \<and> v = (case first_pass (pass_results probe thr sizes st) e of
                None \<Rightarrow> 0
              | Some i \<Rightarrow> real (length circuit_sizes - i))
       \<and> (\<exists>k \<le> length circuit_sizes. v = real k)
       \<and> (\<forall>i < length circuit_sizes.
             v = real (length circuit_sizes - i)
               \<longleftrightarrow> first_pass (pass_results probe thr sizes st) e = Some i)
       \<and> (v = 0 \<longleftrightarrow> first_pass (pass_results probe thr sizes st) e = None)"
proof -
  let ?tr = "pass_results probe thr sizes st"
  let ?n = "length circuit_sizes"
  have n: "length sizes = ?n"
    using sorted_circuit_sizes_ascending(4) [OF assms(2)] .
  from assms have run:
    "probing_loop probe thr ?n 0 sizes (new_prune_scores (model_edges task)) st = (Inr final, st_f)"
    by (simp add: circuit_probing_prune_scores_def n)
  have len: "length ?tr = ?n"
    using probing_loop_closed [OF run, of e] n by simp
  have bound: "i < ?n" if "first_pass ?tr e = Some i" for i
  proof -
    have "first_pass tr e = Some i \<Longrightarrow> i < length tr" for tr i
      by (induction tr arbitrary: i) (auto split: if_splits)
    with that len show ?thesis by fastforce
  qed
  have init: "score_at (new_prune_scores (model_edges task)) e = Some w \<Longrightarrow> w = 0" for w
  proof -
    assume a: "score_at (new_prune_scores (model_edges task)) e = Some w"
    then obtain t where t: "map_of (new_prune_scores (model_edges task)) (fst e) = Some t"
      and j: "snd e < length t" and w: "w = t ! snd e"
      by (auto simp: score_at_def split: option.splits if_splits)
    from t have "(fst e, t) \<in> set (new_prune_scores (model_edges task))"
      by (rule map_of_SomeD)
    then obtain k where "t = replicate k 0"
      by (auto simp: new_prune_scores_def)
    with j w show "w = 0" by simp
  qed
  from probing_loop_closed [OF run, of e] n assms(3) init
  have v: "v = (case first_pass ?tr e of None \<Rightarrow> 0 | Some i \<Rightarrow> real (?n - i))"
    by (auto split: option.splits if_splits)
  have rng: "\<exists>k \<le> ?n. v = real k"
  proof (cases "first_pass ?tr e")
    case None
    with v show ?thesis by auto
  next
    case (Some i)
    with v have "v = real (?n - i)" by simp
    then show ?thesis by (intro exI [of _ "?n - i"]) simp
  qed
  have ex: "\<forall>i < ?n. v = real (?n - i) \<longleftrightarrow> first_pass ?tr e = Some i"
  proof (intro allI impI)
    fix i assume i: "i < ?n"
    show "v = real (?n - i) \<longleftrightarrow> first_pass ?tr e = Some i"
    proof (cases "first_pass ?tr e")
      case None
      with v i show ?thesis by simp
    next
      case (Some i')
      with bound have "i' < ?n" by simp
      with v Some i show ?thesis by auto
    qed
  qed
  have z: "v = 0 \<longleftrightarrow> first_pass ?tr e = None"
  proof (cases "first_pass ?tr e")
    case None
    with v show ?thesis by simp
  next
    case (Some i')
    with bound have "i' < ?n" by simp
    with v Some show ?thesis by simp
  qed
  from len v rng ex z show ?thesis by blast
qed

lemma ex_pass_results:
  "pass_results ex_probe prune_scores_threshold [1, 2] 0
     = [([(''a'', [5, 1, 0])], Thresh 5), ([(''a'', [4, 3, 0])], Thresh 3)]"
  by code_simp

theorem probing_scores_range_witness:
  "circuit_probing_prune_scores ex_probe prune_scores_threshold ex_task [TrueSize, IntSize 1] 0
     = (Inr [(''a'', [2, 1, 0])], 2)
   \<and> score_at [(''a'', [2, 1, 0])] (''a'', Suc 0) = Some 1
   \<and> first_pass (pass_results ex_probe prune_scores_threshold [1, 2] 0) (''a'', Suc 0) = Some 1
   \<and> first_pass (pass_results ex_probe prune_scores_threshold [1, 2] 0) (''a'', 0) = Some 0
   \<and> first_pass (pass_results ex_probe prune_scores_threshold [1, 2] 0) (''a'', 2) = None"
proof -
  have s1: "score_at [(''a'', [2, 1, 0])] (''a'', Suc 0) = Some 1"
    and s0: "score_at [(''a'', [2, 1, 0])] (''a'', 0) = Some 2"
    and s2: "score_at [(''a'', [2, 1, 0])] (''a'', 2) = Some 0"
    by (simp_all add: score_at_def)
  from probing_scores_range [OF ex_probing_run ex_sorted_sizes s1]
  have "\<forall>i < length [TrueSize, IntSize 1].
      (1::real) = real (length [TrueSize, IntSize 1] - i)
        \<longleftrightarrow> first_pass (pass_results ex_probe prune_scores_threshold [1, 2] 0) (''a'', Suc 0) = Some i"
    by blast
  from this [rule_format, of 1]
  have 1: "first_pass (pass_results ex_probe prune_scores_threshold [1, 2] 0) (''a'', Suc 0) = Some 1"
    by simp
  from probing_scores_range [OF ex_probing_run ex_sorted_sizes s0]
  have "\<forall>i < length [TrueSize, IntSize 1].
      (2::real) = real (length [TrueSize, IntSize 1] - i)
        \<longleftrightarrow> first_pass (pass_results ex_probe prune_scores_threshold [1, 2] 0) (''a'', 0) = Some i"
    by blast
  from this [rule_format, of 0]
  have 0: "first_pass (pass_results ex_probe prune_scores_threshold [1, 2] 0) (''a'', 0) = Some 0"
    by simp
  from probing_scores_range [OF ex_probing_run ex_sorted_sizes s2]
  have 2: "first_pass (pass_results ex_probe prune_scores_threshold [1, 2] 0) (''a'', 2) = None"
    by simp
  from ex_probing_run s1 0 1 2 show ?thesis by simp
qed

section \<open>The threshold for a size\<close>

lemma length_desc_abs_scores: "length (desc_abs_scores ps) = length (all_scores ps)"
  by (simp add: desc_abs_scores_def)

lemma desc_abs_scores_sorted: "sorted (rev (desc_abs_scores ps))"
  by (simp add: desc_abs_scores_def)

lemma count_desc_abs_scores:
  "length (filter (\<lambda>y. v \<le> y) (desc_abs_scores ps))
     = length (filter (\<lambda>x. v \<le> \<bar>x\<bar>) (all_scores ps))"
proof -
  have "length (filter (\<lambda>y. v \<le> y) (desc_abs_scores ps))
          = length (filter (\<lambda>y. v \<le> y) (sort (map abs (all_scores ps))))"
    by (simp add: desc_abs_scores_def rev_filter [symmetric])
  also have "\<dots> = length (filter (\<lambda>y. v \<le> y) (map abs (all_scores ps)))"
    by (simp add: filter_sort)
  also have "\<dots> = length (filter (\<lambda>x. v \<le> \<bar>x\<bar>) (all_scores ps))"
    by (simp add: filter_map comp_def)
  finally show ?thesis .
qed

lemma filter_descending:
  "sorted (rev d) \<Longrightarrow> filter (\<lambda>y. (v::real) \<le> y) d = takeWhile (\<lambda>y. v \<le> y) d"
proof (induction d)
  case Nil
  then show ?case by simp
next
  case (Cons x r)
  then have r: "sorted (rev r)" and le: "\<forall>y \<in> set r. y \<le> x"
    by (auto simp: sorted_append)
  show ?case
  proof (cases "v \<le> x")
    case True
    then show ?thesis using Cons.IH [OF r] by simp
  next
    case False
    with le have "\<forall>y \<in> set r. \<not> v \<le> y" by fastforce
    then have "filter (\<lambda>y. v \<le> y) r = []" by (simp add: filter_empty_conv)
    with False show ?thesis by simp
  qed
qed

lemma descending_count:
  fixes d :: "real list"
  assumes d: "sorted (rev d)" and k: "0 < k" "k \<le> length d"
  shows "k \<le> length (filter (\<lambda>y. d ! (k - 1) \<le> y) d)"
    and "length (filter (\<lambda>y. d ! (k - 1) \<le> y) d) = k
           \<longleftrightarrow> \<not> (k < length d \<and> d ! (k - 1) = d ! k)"
proof -
  let ?v = "d ! (k - 1)"
  let ?P = "\<lambda>y::real. ?v \<le> y"
  have f: "filter ?P d = takeWhile ?P d" using d by (rule filter_descending)
  have first: "?P (d ! i)" if "i < k" for i
    using sorted_rev_nth_mono [OF d, of i "k - 1"] that k by simp
  then show ge: "k \<le> length (filter ?P d)"
    unfolding f using k(2) by (intro length_takeWhile_less_P_nth) auto
  show "length (filter ?P d) = k \<longleftrightarrow> \<not> (k < length d \<and> ?v = d ! k)"
  proof (cases "k < length d \<and> ?v = d ! k")
    case True
    then have "?P (d ! i)" if "i < Suc k" for i
      using first that by (cases "i = k") auto
    then have "Suc k \<le> length (takeWhile ?P d)"
      using True by (intro length_takeWhile_less_P_nth) auto
    then show ?thesis using True f by simp
  next
    case False
    have "\<not> ?P (d ! k)" if "k < length d"
    proof -
      have "d ! k \<le> ?v" using sorted_rev_nth_mono [OF d, of "k - 1" k] that by simp
      with False that show ?thesis by simp
    qed
    then have "takeWhile ?P d = take k d"
      using first by (intro takeWhile_eq_take_P_nth) auto
    then show ?thesis using False f k(2) by simp
  qed
qed

text \<open>
  C8. For a size \<open>k\<close> between 0 and the number of edges the threshold exists, at least
  \<open>k\<close> edges have a magnitude at or above it, and exactly \<open>k\<close> have unless the k-th and
  the (k+1)-th largest magnitudes tie; then every edge tied with the k-th is counted. The
  threshold is a function of the scores and \<open>k\<close> alone, so equal inputs give equal
  results.
\<close>

theorem threshold_for_size:
  assumes "0 \<le> k" and "k \<le> int (length (all_scores ps))"
  shows "\<exists>v. prune_scores_threshold ps k = Inr v
           \<and> nat k \<le> edges_at_or_above ps v
           \<and> (edges_at_or_above ps v = nat k \<longleftrightarrow> \<not> tie_at_boundary ps k)"
proof (cases "k = 0")
  case True
  then show ?thesis
    by (simp add: prune_scores_threshold_def edges_at_or_above_def tie_at_boundary_def)
next
  case False
  let ?d = "desc_abs_scores ps"
  let ?v = "?d ! (nat k - 1)"
  from False assms have k: "0 < nat k" "nat k \<le> length ?d"
    by (simp_all add: length_desc_abs_scores)
  have thr: "prune_scores_threshold ps k = Inr (Thresh ?v)"
    using False assms by (simp add: prune_scores_threshold_def length_desc_abs_scores)
  have cnt: "edges_at_or_above ps (Thresh ?v) = length (filter (\<lambda>y. ?v \<le> y) ?d)"
    by (simp add: edges_at_or_above_def count_desc_abs_scores)
  have tie: "tie_at_boundary ps k \<longleftrightarrow> nat k < length ?d \<and> ?v = ?d ! nat k"
    using False assms by (auto simp: tie_at_boundary_def length_desc_abs_scores)
  from descending_count [OF desc_abs_scores_sorted k] thr cnt tie
  show ?thesis by simp
qed

theorem threshold_for_size_witness:
  "prune_scores_threshold [(''a'', [3, - 5, 1]), (''b'', [- 5, 2])] 3 = Inr (Thresh 3)
   \<and> edges_at_or_above [(''a'', [3, - 5, 1]), (''b'', [- 5, 2])] (Thresh 3) = 3
   \<and> \<not> tie_at_boundary [(''a'', [3, - 5, 1]), (''b'', [- 5, 2])] 3
   \<and> prune_scores_threshold [(''a'', [3, - 5, 1]), (''b'', [- 5, 2])] 1 = Inr (Thresh 5)
   \<and> edges_at_or_above [(''a'', [3, - 5, 1]), (''b'', [- 5, 2])] (Thresh 5) = 2
   \<and> tie_at_boundary [(''a'', [3, - 5, 1]), (''b'', [- 5, 2])] 1"
proof -
  let ?ps = "[(''a'', [3, - 5, 1]), (''b'', [- 5, 2])] :: PruneScores"
  have len: "length (all_scores ?ps) = 5" by (simp add: all_scores_def)
  have t3: "prune_scores_threshold ?ps 3 = Inr (Thresh 3)"
    and t1: "prune_scores_threshold ?ps 1 = Inr (Thresh 5)"
    by (simp_all add: prune_scores_threshold_def desc_abs_scores_def all_scores_def)
  have n3: "\<not> tie_at_boundary ?ps 3" and n1: "tie_at_boundary ?ps 1"
    by (simp_all add: tie_at_boundary_def desc_abs_scores_def all_scores_def)
  from threshold_for_size [of 3 ?ps] len t3 n3
  have c3: "edges_at_or_above ?ps (Thresh 3) = 3" by simp
  from threshold_for_size [of 1 ?ps] len t1 n1
  have "1 \<le> edges_at_or_above ?ps (Thresh 5) \<and> edges_at_or_above ?ps (Thresh 5) \<noteq> 1"
    by simp
  moreover have "edges_at_or_above ?ps (Thresh 5) \<le> 2"
    by (simp add: edges_at_or_above_def all_scores_def)
  ultimately have c1: "edges_at_or_above ?ps (Thresh 5) = 2" by simp
  from t3 c3 n3 t1 c1 n1 show ?thesis by simp
qed

section \<open>Same-under-knockout training: the steps of a run\<close>

lemma patch_where_Inr:
  "patch_where v circ patch = Inr patch' \<Longrightarrow>
   length circ = length patch \<and> length patch' = length patch
   \<and> (\<forall>j < length patch. patch' ! j = (if circ ! j then patch ! j else v))"
  by (auto simp: patch_where_def split: if_splits)

lemma force_masks_length:
  "force_masks v circ_masks mask_params = Inr forced \<Longrightarrow> length forced = length mask_params"
  by (induction v circ_masks mask_params arbitrary: forced rule: force_masks.induct)
     (auto split: sum.splits)

lemma force_masks_nth:
  "force_masks v circ_masks mask_params = Inr forced \<Longrightarrow>
   i < length circ_masks \<Longrightarrow> i < length mask_params \<Longrightarrow>
   length (circ_masks ! i) = length (mask_params ! i)
   \<and> length (forced ! i) = length (mask_params ! i)
   \<and> (\<forall>j < length (mask_params ! i).
         forced ! i ! j = (if circ_masks ! i ! j then mask_params ! i ! j else v))"
proof (induction v circ_masks mask_params arbitrary: forced i rule: force_masks.induct)
  case (1 v mask_params)
  then show ?case by simp
next
  case (2 v circ circ_masks)
  then show ?case by simp
next
  case (3 v circ circ_masks patch mask_params)
  from "3.prems"(1) obtain patch' rest where pw: "patch_where v circ patch = Inr patch'"
    and fr: "force_masks v circ_masks mask_params = Inr rest"
    and f: "forced = patch' # rest"
    by (auto split: sum.splits)
  show ?case
  proof (cases i)
    case 0
    then show ?thesis using patch_where_Inr [OF pw] f by simp
  next
    case (Suc i')
    then show ?thesis using "3.IH" [OF pw fr, of i'] "3.prems"(2,3) f by simp
  qed
qed

lemma circ_masks_of_nth:
  "circ_masks_of algo_ps circuit_threshold mods = Inr circ_masks \<Longrightarrow>
   length circ_masks = length mods
   \<and> (\<forall>i < length mods. \<exists>scores. map_of algo_ps (mods ! i) = Some scores
         \<and> circ_masks ! i = map (\<lambda>x. at_least \<bar>x\<bar> circuit_threshold) scores)"
proof (induction mods arbitrary: circ_masks)
  case Nil
  then show ?case by simp
next
  case (Cons m ms)
  from Cons.prems obtain scores rest where s: "map_of algo_ps m = Some scores"
    and r: "circ_masks_of algo_ps circuit_threshold ms = Inr rest"
    and c: "circ_masks = map (\<lambda>x. at_least \<bar>x\<bar> circuit_threshold) scores # rest"
    by (auto split: option.splits sum.splits)
  from Cons.IH [OF r] s c show ?case
    by (auto simp: nth_Cons split: nat.splits)
qed

lemma knockout_forward_passes_Inr:
  assumes "knockout_forward_passes ext circ_masks batch mask_params w = (Inr ps, w')"
  obtains patched_all patched_none where
    "force_masks 99 circ_masks mask_params = Inr patched_all"
    "force_masks (- 99) circ_masks patched_all = Inr patched_none"
    "forward_calls ps = [patched_all, patched_none]"
    "masks_after_forward ps = patched_none"
    "circuit_logprobs ps = fst (forward_logprobs ext batch patched_all w)"
    "model_logprobs ps
       = fst (forward_logprobs ext batch patched_none (snd (forward_logprobs ext batch patched_all w)))"
  using assms unfolding knockout_forward_passes_def
  by (auto split: sum.splits prod.splits)

lemma two_passes_entries:
  assumes a: "force_masks 99 circ_masks mask_params = Inr patched_all"
    and b: "force_masks (- 99) circ_masks patched_all = Inr patched_none"
    and i: "i < length circ_masks" "i < length mask_params"
    and j: "j < length (mask_params ! i)"
  shows "patched_all ! i ! j = (if circ_masks ! i ! j then mask_params ! i ! j else 99)"
    and "patched_none ! i ! j = (if circ_masks ! i ! j then mask_params ! i ! j else - 99)"
proof -
  from force_masks_nth [OF a i] j
  have 1: "length (patched_all ! i) = length (mask_params ! i)"
    and 2: "patched_all ! i ! j = (if circ_masks ! i ! j then mask_params ! i ! j else 99)"
    by simp_all
  from force_masks_length [OF a] i have i': "i < length patched_all" by simp
  from force_masks_nth [OF b i(1) i'] j 1
  have 3: "patched_none ! i ! j = (if circ_masks ! i ! j then patched_all ! i ! j else - 99)"
    by simp
  show "patched_all ! i ! j = (if circ_masks ! i ! j then mask_params ! i ! j else 99)"
    by (rule 2)
  show "patched_none ! i ! j = (if circ_masks ! i ! j then mask_params ! i ! j else - 99)"
    using 2 3 by simp
qed

lemma knockout_step_Inr:
  assumes "knockout_step ext optim_step circ_masks n_target lam batch mask_params w
             = (Inr (mask_params', tr), w')"
  obtains ps w2 where
    "knockout_forward_passes ext circ_masks batch mask_params w = (Inr ps, w2)"
    "masks_before tr = mask_params"
    "step_passes tr = ps"
    "kl_div_term tr = - multibatch_kl_div ext (circuit_logprobs ps) (model_logprobs ps)"
    "knockouts_sum tr
       = sum_list (fst (sample_hard_concrete ext (concat (masks_after_forward ps)) w2))"
    "reg_term tr = tdiv_int (max 0 (knockouts_sum tr - real_of_int n_target)) n_target"
    "loss tr = tadd (kl_div_term tr) (tmul (reg_term tr) lam)"
  using assms unfolding knockout_step_def
  by (auto simp: Let_def split: sum.splits prod.splits)

lemma train_batches_steps:
  "train_batches ext optim_step circ_masks n_target lam batches mask_params w
     = (Inr (mask_params', trs), w') \<Longrightarrow>
   length trs = length batches \<and>
   (\<forall>tr \<in> set trs. \<exists>batch m w0 m' w1.
      knockout_step ext optim_step circ_masks n_target lam batch m w0 = (Inr (m', tr), w1))"
proof (induction batches arbitrary: mask_params w mask_params' trs w')
  case Nil
  then show ?case by simp
next
  case (Cons batch rest)
  from Cons.prems obtain m1 tr w1 m2 trs' where
    s: "knockout_step ext optim_step circ_masks n_target lam batch mask_params w = (Inr (m1, tr), w1)"
    and r: "train_batches ext optim_step circ_masks n_target lam rest m1 w1 = (Inr (m2, trs'), w')"
    and t: "trs = tr # trs'"
    by (auto split: sum.splits prod.splits)
  from s have "\<exists>batch m w0 m' w1.
      knockout_step ext optim_step circ_masks n_target lam batch m w0 = (Inr (m', tr), w1)"
    by blast
  with Cons.IH [OF r] t show ?case by simp
qed

lemma train_epochs_steps:
  "train_epochs ext optim_step circ_masks n_target lam batches epochs mask_params w
     = (Inr (mask_params', trs), w') \<Longrightarrow>
   length trs = epochs * length batches \<and>
   (\<forall>tr \<in> set trs. \<exists>batch m w0 m' w1.
      knockout_step ext optim_step circ_masks n_target lam batch m w0 = (Inr (m', tr), w1))"
proof (induction epochs arbitrary: mask_params w mask_params' trs w')
  case 0
  then show ?case by simp
next
  case (Suc epochs)
  from Suc.prems obtain m1 trs1 w1 m2 trs2 where
    b: "train_batches ext optim_step circ_masks n_target lam batches mask_params w
          = (Inr (m1, trs1), w1)"
    and r: "train_epochs ext optim_step circ_masks n_target lam batches epochs m1 w1
          = (Inr (m2, trs2), w')"
    and t: "trs = trs1 @ trs2"
    by (auto split: sum.splits prod.splits)
  from train_batches_steps [OF b] Suc.IH [OF r] t show ?case by auto
qed

lemma train_run_steps:
  assumes "train_same_under_knockout_prune_scores ext optim_step thr task algo_ps circuit_size
             epochs lam w = (Inr (scores, history), w')"
  shows "\<exists>circuit_threshold circ_masks.
      thr algo_ps circuit_size = Inr circuit_threshold
    \<and> circ_masks_of algo_ps circuit_threshold (map fst (model_edges task)) = Inr circ_masks
    \<and> length history = nat epochs * length (test_loader task)
    \<and> (\<forall>tr \<in> set history. \<exists>batch m w0 m' w1.
          knockout_step ext optim_step circ_masks (n_target_of circuit_size) lam batch m w0
            = (Inr (m', tr), w1))"
proof -
  from assms obtain circuit_threshold circ_masks mask_params where
    t: "thr algo_ps circuit_size = Inr circuit_threshold"
    and c: "circ_masks_of algo_ps circuit_threshold (map fst (model_edges task)) = Inr circ_masks"
    and e: "train_epochs ext optim_step circ_masks (n_target_of circuit_size) lam
              (test_loader task) (nat epochs)
              (set_all_masks (- init_mask_val)
                 (set_all_masks 0 (map (\<lambda>(m, n). replicate n 0) (model_edges task)))) w
            = (Inr (mask_params, history), w')"
    unfolding train_same_under_knockout_prune_scores_def
    by (auto simp: Let_def split: sum.splits prod.splits)
  from train_epochs_steps [OF e] t c show ?thesis by blast
qed

lemma ex_knockout_run:
  "\<exists>scores tr w'.
     train_same_under_knockout_prune_scores (ex_ext ex_samples) ex_optim prune_scores_threshold
       ex_knockout_task ex_algo_ps 6 1 2 0 = (Inr (scores, [tr]), w')
   \<and> knockouts_sum tr = 11 / 10
   \<and> masks_before tr = [replicate 7 (- init_mask_val)]"
  by (simp add: knockout_eval example_defs)

lemma ex_knockout_circ:
  "prune_scores_threshold ex_algo_ps 6 = Inr (Thresh 2)"
  "circ_masks_of ex_algo_ps (Thresh 2) (map fst (model_edges ex_knockout_task))
     = Inr [[True, True, True, True, True, True, False]]"
  by (simp_all add: prune_scores_threshold_def desc_abs_scores_def all_scores_def example_defs)

lemma ex_passes:
  "knockout_forward_passes (ex_ext [0, 0]) [[True, False]] () [[1 / 2, 1 / 4]] 0
     = (Inr \<lparr>forward_calls = [[[1 / 2, 99]], [[1 / 2, - 99]]],
             circuit_logprobs = [[1 / 2, 99]],
             model_logprobs = [[1 / 2, - 99]],
             masks_after_forward = [[1 / 2, - 99]]\<rparr>, 2)"
  by (simp add: knockout_forward_passes_def patch_where_def ex_ext_def)

lemma ex_circ: "circ_masks_of [(''a'', [5, - 1])] (Thresh 5) [''a''] = Inr [[True, False]]"
  by simp

text \<open>
  C2, amended. In every step of a run whose \<open>n_target\<close> is not zero, the loss is the
  negated KL divergence of the circuit log-probabilities from the full-model
  log-probabilities plus \<open>regularize_lambda\<close> times \<open>relu(s - n_target) / n_target\<close>,
  where \<open>s\<close> is the sum of one hard-concrete sample of all mask parameters and \<open>n_target\<close>
  is \<open>circuit_size / 5\<close> truncated towards zero to an integer.
\<close>

theorem knockout_loss:
  assumes "train_same_under_knockout_prune_scores ext optim_step thr task algo_ps circuit_size
             epochs regularize_lambda w = (Inr (scores, history), w')"
    and "n_target_of circuit_size \<noteq> 0"
    and "tr \<in> set history"
  shows "loss tr =
           Finite (- multibatch_kl_div ext (circuit_logprobs (step_passes tr))
                                           (model_logprobs (step_passes tr))
                   + max 0 (knockouts_sum tr - real_of_int (n_target_of circuit_size))
                       / real_of_int (n_target_of circuit_size) * regularize_lambda)
         \<and> (\<exists>w0. knockouts_sum tr =
               sum_list (fst (sample_hard_concrete ext
                                (concat (masks_after_forward (step_passes tr))) w0)))
         \<and> n_target_of circuit_size = sgn circuit_size * (\<bar>circuit_size\<bar> div 5)"
proof -
  from train_run_steps [OF assms(1)] assms(3) obtain circ_masks batch m w0 m' w1 where
    s: "knockout_step ext optim_step circ_masks (n_target_of circuit_size) regularize_lambda
          batch m w0 = (Inr (m', tr), w1)"
    by blast
  from s obtain ps w2 where
    sp: "step_passes tr = ps"
    and kl: "kl_div_term tr = - multibatch_kl_div ext (circuit_logprobs ps) (model_logprobs ps)"
    and ks: "knockouts_sum tr
       = sum_list (fst (sample_hard_concrete ext (concat (masks_after_forward ps)) w2))"
    and rg: "reg_term tr = tdiv_int (max 0 (knockouts_sum tr - real_of_int (n_target_of circuit_size)))
                             (n_target_of circuit_size)"
    and ls: "loss tr = tadd (kl_div_term tr) (tmul (reg_term tr) regularize_lambda)"
    by (rule knockout_step_Inr)
  from rg assms(2) have "reg_term tr =
      Finite (max 0 (knockouts_sum tr - real_of_int (n_target_of circuit_size))
                / real_of_int (n_target_of circuit_size))"
    by simp
  with ls kl sp have 1: "loss tr =
           Finite (- multibatch_kl_div ext (circuit_logprobs (step_passes tr))
                                           (model_logprobs (step_passes tr))
                   + max 0 (knockouts_sum tr - real_of_int (n_target_of circuit_size))
                       / real_of_int (n_target_of circuit_size) * regularize_lambda)"
    by simp
  from ks sp have 2: "\<exists>w0. knockouts_sum tr =
               sum_list (fst (sample_hard_concrete ext
                                (concat (masks_after_forward (step_passes tr))) w0))"
    by blast
  have 3: "n_target_of circuit_size = sgn circuit_size * (\<bar>circuit_size\<bar> div 5)"
    by (simp add: n_target_of_def sgn_if)
  from 1 2 3 show ?thesis by blast
qed

theorem knockout_loss_witness:
  "n_target_of 6 \<noteq> 0
   \<and> map loss (run_history
      (train_same_under_knockout_prune_scores (ex_ext ex_samples) ex_optim prune_scores_threshold
         ex_knockout_task ex_algo_ps 6 1 2 0)) = [Finite (- (1 / 4) + (11 / 10 - 1) / 1 * 2)]"
proof -
  from ex_knockout_run obtain scores tr w' where
    run: "train_same_under_knockout_prune_scores (ex_ext ex_samples) ex_optim prune_scores_threshold
       ex_knockout_task ex_algo_ps 6 1 2 0 = (Inr (scores, [tr]), w')"
    and ks: "knockouts_sum tr = 11 / 10"
    by blast
  have n: "n_target_of 6 \<noteq> 0" by (simp add: n_target_of_def)
  have tr: "tr \<in> set [tr]" by simp
  from knockout_loss [OF run n tr] ks
  have "loss tr = Finite (- (1 / 4) + (11 / 10 - 1) / 1 * 2)"
    by (simp add: ex_ext_def n_target_of_def)
  with run n show ?thesis by (simp add: run_history_def)
qed

theorem knockout_loss_counterexample:
  "map loss (run_history
      (train_same_under_knockout_prune_scores (ex_ext ex_samples) ex_optim prune_scores_threshold
         ex_knockout_task ex_algo_ps 6 1 2 0)) = [Finite (- (1 / 20))]
   \<and> map knockouts_sum (run_history
      (train_same_under_knockout_prune_scores (ex_ext ex_samples) ex_optim prune_scores_threshold
         ex_knockout_task ex_algo_ps 6 1 2 0)) = [11 / 10]
   \<and> spec_loss (1 / 4) 2 (11 / 10) 6 = - (1 / 4)
   \<and> Finite (- (1 / 20)) \<noteq> Finite (spec_loss (1 / 4) 2 (11 / 10) 6)
   \<and> n_target_of 6 = 1 \<and> spec_n_target 6 = 6 / 5"
  by (simp add: knockout_eval example_defs spec_loss_def spec_n_target_def)

text \<open>
  C3, amended. The in-circuit edges are those whose baseline score has a magnitude at or
  above the threshold. They enter both forward passes with their learnable mask values; the
  out-of-circuit edges are the forced ones, at 99 or -99. The learnable knockouts are thus
  a subset of the in-circuit edges.
\<close>

theorem knockouts_within_circuit:
  assumes "circ_masks_of algo_ps circuit_threshold mods = Inr circ_masks"
    and "knockout_forward_passes ext circ_masks batch mask_params w = (Inr ps, w')"
    and "length mask_params = length mods"
    and "i < length mods" and "j < length (mask_params ! i)"
  shows "\<exists>scores. map_of algo_ps (mods ! i) = Some scores \<and> j < length scores
           \<and> (\<forall>used \<in> set (forward_calls ps).
                 if at_least \<bar>scores ! j\<bar> circuit_threshold
                 then used ! i ! j = mask_params ! i ! j
                 else used ! i ! j = 99 \<or> used ! i ! j = - 99)"
proof -
  from circ_masks_of_nth [OF assms(1)] assms(4) obtain scores where
    len: "length circ_masks = length mods"
    and sc: "map_of algo_ps (mods ! i) = Some scores"
    and ci: "circ_masks ! i = map (\<lambda>x. at_least \<bar>x\<bar> circuit_threshold) scores"
    by blast
  from assms(2) obtain patched_all patched_none where
    a: "force_masks 99 circ_masks mask_params = Inr patched_all"
    and b: "force_masks (- 99) circ_masks patched_all = Inr patched_none"
    and fc: "forward_calls ps = [patched_all, patched_none]"
    by (rule knockout_forward_passes_Inr)
  have i: "i < length circ_masks" "i < length mask_params"
    using len assms(3,4) by simp_all
  from force_masks_nth [OF a i] ci have j: "j < length scores"
    using assms(5) by (metis length_map)
  then have cij: "circ_masks ! i ! j = at_least \<bar>scores ! j\<bar> circuit_threshold"
    using ci by simp
  have "\<forall>used \<in> set (forward_calls ps).
           if at_least \<bar>scores ! j\<bar> circuit_threshold
           then used ! i ! j = mask_params ! i ! j
           else used ! i ! j = 99 \<or> used ! i ! j = - 99"
    using two_passes_entries [OF a b i assms(5)] cij fc by simp
  with sc j show ?thesis by blast
qed

theorem knockouts_within_circuit_witness:
  "circ_masks_of [(''a'', [5, - 1])] (Thresh 5) [''a''] = Inr [[True, False]]
   \<and> knockout_forward_passes (ex_ext [0, 0]) [[True, False]] () [[1 / 2, 1 / 4]] 0
     = (Inr \<lparr>forward_calls = [[[1 / 2, 99]], [[1 / 2, - 99]]],
             circuit_logprobs = [[1 / 2, 99]],
             model_logprobs = [[1 / 2, - 99]],
             masks_after_forward = [[1 / 2, - 99]]\<rparr>, 2)
   \<and> map_of [(''a'', [5, - 1])] ([''a''] ! 0) = Some [5, - 1]
   \<and> at_least \<bar>[5, - 1 :: real] ! 0\<bar> (Thresh 5)
   \<and> \<not> at_least \<bar>[5, - 1 :: real] ! 1\<bar> (Thresh 5)
   \<and> [[1 / 2, 99 :: real]] ! 0 ! 0 = [[1 / 2, 1 / 4]] ! 0 ! 0
   \<and> [[1 / 2, - 99 :: real]] ! 0 ! 0 = [[1 / 2, 1 / 4]] ! 0 ! 0
   \<and> ([[1 / 2, 99 :: real]] ! 0 ! 1 = 99 \<or> [[1 / 2, 99 :: real]] ! 0 ! 1 = - 99)"
proof -
  have l: "length [[1 / 2, 1 / 4 :: real]] = length [''a'']" by simp
  have i: "0 < length [''a'']" by simp
  have j0: "0 < length ([[1 / 2, 1 / 4 :: real]] ! 0)" and j1: "1 < length ([[1 / 2, 1 / 4 :: real]] ! 0)"
    by simp_all
  from knockouts_within_circuit [OF ex_circ ex_passes l i j0]
  have a: "[[1 / 2, 99 :: real]] ! 0 ! 0 = [[1 / 2, 1 / 4]] ! 0 ! 0
      \<and> [[1 / 2, - 99 :: real]] ! 0 ! 0 = [[1 / 2, 1 / 4]] ! 0 ! 0"
    by simp
  from knockouts_within_circuit [OF ex_circ ex_passes l i j1]
  have b: "[[1 / 2, 99 :: real]] ! 0 ! 1 = 99 \<or> [[1 / 2, 99 :: real]] ! 0 ! 1 = - 99"
    by simp
  from a b ex_circ ex_passes show ?thesis by simp
qed

theorem knockouts_within_circuit_counterexample:
  "circ_masks_of [(''a'', [5, - 1])] (Thresh 5) [''a''] = Inr [[True, False]]
   \<and> knockout_forward_passes (ex_ext [0, 0]) [[True, False]] () [[1 / 2, 1 / 4]] 0
     = (Inr \<lparr>forward_calls = [[[1 / 2, 99]], [[1 / 2, - 99]]],
             circuit_logprobs = [[1 / 2, 99]],
             model_logprobs = [[1 / 2, - 99]],
             masks_after_forward = [[1 / 2, - 99]]\<rparr>, 2)
   \<and> \<not> spec_knockout_pass [[True, False]] [[1 / 2, 1 / 4]] [[1 / 2, 99]]
   \<and> \<not> spec_knockout_pass [[True, False]] [[1 / 2, 1 / 4]] [[1 / 2, - 99]]"
  by (simp add: knockout_forward_passes_def patch_where_def ex_ext_def spec_knockout_pass_def)

text \<open>
  C4. Every step of a run calls the model exactly twice. In the first call, which gives
  \<open>circuit_logprobs\<close>, every out-of-circuit edge has the mask value 99; in the second,
  which gives \<open>model_logprobs\<close>, the same edges have -99; in both calls every in-circuit
  edge has the mask value it had when the step began.
\<close>

theorem two_forward_passes:
  assumes "train_same_under_knockout_prune_scores ext optim_step thr task algo_ps circuit_size
             epochs regularize_lambda w = (Inr (scores, history), w')"
    and "tr \<in> set history"
  shows "\<exists>circuit_threshold circ_masks patched_all patched_none.
           thr algo_ps circuit_size = Inr circuit_threshold
         \<and> circ_masks_of algo_ps circuit_threshold (map fst (model_edges task)) = Inr circ_masks
         \<and> forward_calls (step_passes tr) = [patched_all, patched_none]
         \<and> (\<exists>batch w0. circuit_logprobs (step_passes tr)
                           = fst (forward_logprobs ext batch patched_all w0)
                \<and> model_logprobs (step_passes tr)
                           = fst (forward_logprobs ext batch patched_none
                                    (snd (forward_logprobs ext batch patched_all w0))))
         \<and> (\<forall>i j. i < length circ_masks \<and> i < length (masks_before tr)
                   \<and> j < length (masks_before tr ! i) \<longrightarrow>
                (if circ_masks ! i ! j
                 then patched_all ! i ! j = masks_before tr ! i ! j
                      \<and> patched_none ! i ! j = masks_before tr ! i ! j
                 else patched_all ! i ! j = 99 \<and> patched_none ! i ! j = - 99))"
proof -
  from train_run_steps [OF assms(1)] assms(2)
  obtain circuit_threshold circ_masks batch m w0 m' w1 where
    t: "thr algo_ps circuit_size = Inr circuit_threshold"
    and c: "circ_masks_of algo_ps circuit_threshold (map fst (model_edges task)) = Inr circ_masks"
    and
    s: "knockout_step ext optim_step circ_masks (n_target_of circuit_size) regularize_lambda
          batch m w0 = (Inr (m', tr), w1)"
    by blast
  from s obtain ps w2 where
    kp: "knockout_forward_passes ext circ_masks batch m w0 = (Inr ps, w2)"
    and mb: "masks_before tr = m" and sp: "step_passes tr = ps"
    by (rule knockout_step_Inr)
  from kp obtain patched_all patched_none where
    a: "force_masks 99 circ_masks m = Inr patched_all"
    and b: "force_masks (- 99) circ_masks patched_all = Inr patched_none"
    and fc: "forward_calls ps = [patched_all, patched_none]"
    and cl: "circuit_logprobs ps = fst (forward_logprobs ext batch patched_all w0)"
    and ml: "model_logprobs ps
       = fst (forward_logprobs ext batch patched_none (snd (forward_logprobs ext batch patched_all w0)))"
    by (rule knockout_forward_passes_Inr)
  have lp: "\<exists>batch w0. circuit_logprobs (step_passes tr)
                           = fst (forward_logprobs ext batch patched_all w0)
                \<and> model_logprobs (step_passes tr)
                           = fst (forward_logprobs ext batch patched_none
                                    (snd (forward_logprobs ext batch patched_all w0)))"
    using cl ml sp by blast
  have "\<forall>i j. i < length circ_masks \<and> i < length (masks_before tr)
                   \<and> j < length (masks_before tr ! i) \<longrightarrow>
                (if circ_masks ! i ! j
                 then patched_all ! i ! j = masks_before tr ! i ! j
                      \<and> patched_none ! i ! j = masks_before tr ! i ! j
                 else patched_all ! i ! j = 99 \<and> patched_none ! i ! j = - 99)"
    using two_passes_entries [OF a b] mb by simp
  with t c fc sp lp show ?thesis by blast
qed

theorem two_forward_passes_witness:
  "map (\<lambda>tr. map (\<lambda>m. m ! 0 ! 6) (forward_calls (step_passes tr))) (run_history
      (train_same_under_knockout_prune_scores (ex_ext ex_samples) ex_optim prune_scores_threshold
         ex_knockout_task ex_algo_ps 6 1 2 0)) = [[99, - 99]]
   \<and> map (\<lambda>tr. map (\<lambda>m. m ! 0 ! 0) (forward_calls (step_passes tr))) (run_history
      (train_same_under_knockout_prune_scores (ex_ext ex_samples) ex_optim prune_scores_threshold
         ex_knockout_task ex_algo_ps 6 1 2 0)) = [[- init_mask_val, - init_mask_val]]"
proof -
  from ex_knockout_run obtain scores tr w' where
    run: "train_same_under_knockout_prune_scores (ex_ext ex_samples) ex_optim prune_scores_threshold
       ex_knockout_task ex_algo_ps 6 1 2 0 = (Inr (scores, [tr]), w')"
    and mb: "masks_before tr = [replicate 7 (- init_mask_val)]"
    by blast
  have tr: "tr \<in> set [tr]" by simp
  from two_forward_passes [OF run tr] ex_knockout_circ
  obtain patched_all patched_none where
    f: "forward_calls (step_passes tr) = [patched_all, patched_none]"
    and e: "\<And>i j. i < length [[True, True, True, True, True, True, False]]
          \<Longrightarrow> i < length (masks_before tr) \<Longrightarrow> j < length (masks_before tr ! i) \<Longrightarrow>
          (if [[True, True, True, True, True, True, False]] ! i ! j
           then patched_all ! i ! j = masks_before tr ! i ! j
                \<and> patched_none ! i ! j = masks_before tr ! i ! j
           else patched_all ! i ! j = 99 \<and> patched_none ! i ! j = - 99)"
    by auto
  from e [of 0 6] mb have 6: "patched_all ! 0 ! 6 = 99 \<and> patched_none ! 0 ! 6 = - 99"
    by simp
  from e [of 0 0] mb have 0: "patched_all ! 0 ! 0 = - init_mask_val
      \<and> patched_none ! 0 ! 0 = - init_mask_val"
    by simp
  from run f 6 0 show ?thesis by (simp add: run_history_def)
qed

text \<open>
  C5, amended. The forced values are written into the mask parameters and stay there: when
  the two forward passes are over, an in-circuit edge holds the value it had before and an
  out-of-circuit edge holds -99. The parameters equal their values from before the forcing
  only if every out-of-circuit edge already held -99.
\<close>

theorem forced_masks_stay:
  assumes "knockout_forward_passes ext circ_masks batch mask_params w = (Inr ps, w')"
    and "length circ_masks = length mask_params"
  shows "(\<forall>i j. i < length mask_params \<and> j < length (mask_params ! i) \<longrightarrow>
            masks_after_forward ps ! i ! j
              = (if circ_masks ! i ! j then mask_params ! i ! j else - 99))
       \<and> (masks_after_forward ps = mask_params \<longleftrightarrow>
            (\<forall>i j. i < length mask_params \<and> j < length (mask_params ! i)
                   \<and> \<not> circ_masks ! i ! j \<longrightarrow> mask_params ! i ! j = - 99))"
proof -
  from assms(1) obtain patched_all patched_none where
    a: "force_masks 99 circ_masks mask_params = Inr patched_all"
    and b: "force_masks (- 99) circ_masks patched_all = Inr patched_none"
    and af: "masks_after_forward ps = patched_none"
    by (rule knockout_forward_passes_Inr)
  have entries: "patched_none ! i ! j = (if circ_masks ! i ! j then mask_params ! i ! j else - 99)"
    if "i < length mask_params" "j < length (mask_params ! i)" for i j
    using two_passes_entries(2) [OF a b _ that(1) that(2)] that(1) assms(2) by simp
  have l1: "length patched_none = length mask_params"
    using force_masks_length [OF a] force_masks_length [OF b] by simp
  have l2: "length (patched_none ! i) = length (mask_params ! i)" if "i < length mask_params" for i
  proof -
    have i: "i < length circ_masks" "i < length patched_all"
      using that assms(2) force_masks_length [OF a] by simp_all
    from force_masks_nth [OF a i(1) that] force_masks_nth [OF b i] show ?thesis by simp
  qed
  have eq: "patched_none = mask_params \<longleftrightarrow>
      (\<forall>i j. i < length mask_params \<and> j < length (mask_params ! i)
                   \<and> \<not> circ_masks ! i ! j \<longrightarrow> mask_params ! i ! j = - 99)"
  proof
    assume "patched_none = mask_params"
    then show "\<forall>i j. i < length mask_params \<and> j < length (mask_params ! i)
                   \<and> \<not> circ_masks ! i ! j \<longrightarrow> mask_params ! i ! j = - 99"
      using entries by (metis (full_types))
  next
    assume r: "\<forall>i j. i < length mask_params \<and> j < length (mask_params ! i)
                   \<and> \<not> circ_masks ! i ! j \<longrightarrow> mask_params ! i ! j = - 99"
    show "patched_none = mask_params"
    proof (rule nth_equalityI [OF l1])
      fix i assume "i < length patched_none"
      then have i: "i < length mask_params" using l1 by simp
      show "patched_none ! i = mask_params ! i"
      proof (rule nth_equalityI [OF l2 [OF i]])
        fix j assume "j < length (patched_none ! i)"
        then have j: "j < length (mask_params ! i)" using l2 [OF i] by simp
        show "patched_none ! i ! j = mask_params ! i ! j"
          using entries [OF i j] r i j by auto
      qed
    qed
  qed
  from entries eq af show ?thesis by simp
qed

theorem forced_masks_stay_witness:
  "knockout_forward_passes (ex_ext [0, 0]) [[True, False]] () [[1 / 2, 1 / 4]] 0
     = (Inr \<lparr>forward_calls = [[[1 / 2, 99]], [[1 / 2, - 99]]],
             circuit_logprobs = [[1 / 2, 99]],
             model_logprobs = [[1 / 2, - 99]],
             masks_after_forward = [[1 / 2, - 99]]\<rparr>, 2)
   \<and> length [[True, False]] = length [[1 / 2, 1 / 4 :: real]]
   \<and> masks_after_forward \<lparr>forward_calls = [[[1 / 2, 99]], [[1 / 2, - 99]]],
             circuit_logprobs = [[1 / 2, 99 :: real]],
             model_logprobs = [[1 / 2, - 99 :: real]],
             masks_after_forward = [[1 / 2, - 99]]\<rparr> ! 0 ! 1 = - 99
   \<and> masks_after_forward \<lparr>forward_calls = [[[1 / 2, 99]], [[1 / 2, - 99]]],
             circuit_logprobs = [[1 / 2, 99 :: real]],
             model_logprobs = [[1 / 2, - 99 :: real]],
             masks_after_forward = [[1 / 2, - 99]]\<rparr> \<noteq> [[1 / 2, 1 / 4]]"
proof -
  have l: "length [[True, False]] = length [[1 / 2, 1 / 4 :: real]]" by simp
  note t = forced_masks_stay [OF ex_passes l]
  from t have "\<And>i j. i < length [[1 / 2, 1 / 4 :: real]]
      \<Longrightarrow> j < length ([[1 / 2, 1 / 4 :: real]] ! i)
      \<Longrightarrow> masks_after_forward \<lparr>forward_calls = [[[1 / 2, 99]], [[1 / 2, - 99]]],
             circuit_logprobs = [[1 / 2, 99 :: real]],
             model_logprobs = [[1 / 2, - 99 :: real]],
             masks_after_forward = [[1 / 2, - 99]]\<rparr> ! i ! j
          = (if [[True, False]] ! i ! j then [[1 / 2, 1 / 4]] ! i ! j else - 99)"
    by blast
  from this [of 0 1] have 1: "masks_after_forward \<lparr>forward_calls = [[[1 / 2, 99]], [[1 / 2, - 99]]],
             circuit_logprobs = [[1 / 2, 99 :: real]],
             model_logprobs = [[1 / 2, - 99 :: real]],
             masks_after_forward = [[1 / 2, - 99]]\<rparr> ! 0 ! 1 = - 99"
    by simp
  with ex_passes show ?thesis by simp
qed

theorem forced_masks_stay_counterexample:
  "knockout_forward_passes (ex_ext [0, 0]) [[True, False]] () [[1 / 2, 1 / 4]] 0
     = (Inr \<lparr>forward_calls = [[[1 / 2, 99]], [[1 / 2, - 99]]],
             circuit_logprobs = [[1 / 2, 99]],
             model_logprobs = [[1 / 2, - 99]],
             masks_after_forward = [[1 / 2, - 99]]\<rparr>, 2)
   \<and> [[1 / 2, - 99]] \<noteq> [[1 / 2, 1 / 4 :: real]]"
  by (simp add: knockout_forward_passes_def patch_where_def ex_ext_def)

section \<open>Same-under-knockout training: the regularisation term at a zero target\<close>

lemma reg_term_zero_positive_target:
  "0 < n_target \<Longrightarrow> s \<le> real_of_int n_target \<Longrightarrow>
   tdiv_int (max 0 (s - real_of_int n_target)) n_target = Finite 0"
  by simp

text \<open>
  C6. With \<open>circuit_size = 3\<close> the target \<open>n_target\<close> is 0. A hard-concrete sample of all
  zeros has sum 0, which is at or below the target, and the regularisation term of that step
  is \<open>relu(0) / 0\<close>: not zero but NaN, and so is the loss.
\<close>

theorem reg_term_nan_at_zero_target:
  "n_target_of 3 = 0
   \<and> map knockouts_sum (run_history
        (train_same_under_knockout_prune_scores (ex_ext [0, 0, 0, 0]) ex_optim prune_scores_threshold
           ex_small_task ex_small_ps 3 1 2 0)) = [0]
   \<and> map reg_term (run_history
        (train_same_under_knockout_prune_scores (ex_ext [0, 0, 0, 0]) ex_optim prune_scores_threshold
           ex_small_task ex_small_ps 3 1 2 0)) = [NaN]
   \<and> map loss (run_history
        (train_same_under_knockout_prune_scores (ex_ext [0, 0, 0, 0]) ex_optim prune_scores_threshold
           ex_small_task ex_small_ps 3 1 2 0)) = [NaN]"
  by (simp add: knockout_eval example_defs)

section \<open>The initial mask value\<close>








end
